theory Spec2Isabelle
  imports Main "HOL-Library.Word" "HOL-Library.Multiset"
begin

section \<open>Data model of life.c\<close>

text \<open>
  A board is a C array of \<^verbatim>\<open>char\<close>: a list of 8-bit words. The same buffer
  holds the plain board (cells 0 or 1) before \<^verbatim>\<open>preprocessing_board\<close> and after
  \<^verbatim>\<open>postprocessing_board\<close>, and encoded cells in between. C \<^verbatim>\<open>int\<close>
  values (sizes, row and column indices) are \<^typ>\<open>int\<close>; the dispatcher admits only
  sizes up to 10000, so no index computation of the engine leaves the 32-bit range
  (lemma \<open>index_fits_int\<close> below).
\<close>

type_synonym cell = "8 word"
type_synonym board = "cell list"

text \<open>
  Modelled from the spec: the cell macros \<^verbatim>\<open>ALIVE\<close>, \<^verbatim>\<open>TOKILL\<close>,
  \<^verbatim>\<open>TOSPAWN\<close>, \<^verbatim>\<open>SPAWN\<close>, \<^verbatim>\<open>KILL\<close>, \<^verbatim>\<open>N_INC\<close> and
  \<^verbatim>\<open>N_DEC\<close> live in life.h, which is not part of the sources. They are taken as a
  parameter: a record of functions on cells. \<open>ALIVE\<close> yields a cell because
  \<^verbatim>\<open>postprocessing_board\<close> stores its value; as a condition it is tested against 0.
  \<open>INC\<close> and \<open>DEC\<close> are what \<^verbatim>\<open>N_INC\<close> and \<^verbatim>\<open>N_DEC\<close> do to the addressed
  cell. \<open>NCOUNT\<close> reads the neighbour-count field the spec speaks of; the code never
  calls it.
\<close>

record encoding =
  ALIVE :: "cell \<Rightarrow> cell"
  TOKILL :: "cell \<Rightarrow> bool"
  TOSPAWN :: "cell \<Rightarrow> bool"
  SPAWN :: "cell \<Rightarrow> cell"
  KILL :: "cell \<Rightarrow> cell"
  INC :: "cell \<Rightarrow> cell"
  DEC :: "cell \<Rightarrow> cell"
  NCOUNT :: "cell \<Rightarrow> nat"

text \<open>
  Modelled from the spec: the contract of the encoded cell (spec 3 and 4.1). A cell
  holds an alive flag and a neighbour count from 0 to 8; the plain cell 0 is a dead cell
  with count 0; \<open>SPAWN\<close> and \<open>KILL\<close> change only the flag; \<open>INC\<close> and \<open>DEC\<close>
  change only the count, by one, as long as it stays within 0 to 8 (what they do
  outside that range is left open); on an alive cell \<open>TOKILL\<close> holds iff the count is
  neither 2 nor 3; on a dead cell \<open>TOSPAWN\<close> holds iff the count is 3; \<open>ALIVE\<close>
  yields the plain indicator 0 or 1.
\<close>

definition enc_ok :: "encoding \<Rightarrow> bool" where
  "enc_ok e \<longleftrightarrow>
     (\<forall>c. ALIVE e c = 0 \<or> ALIVE e c = 1) \<and>
     ALIVE e 0 = 0 \<and> NCOUNT e 0 = 0 \<and>
     (\<forall>c. ALIVE e (SPAWN e c) = 1 \<and> NCOUNT e (SPAWN e c) = NCOUNT e c) \<and>
     (\<forall>c. ALIVE e (KILL e c) = 0 \<and> NCOUNT e (KILL e c) = NCOUNT e c) \<and>
     (\<forall>c. NCOUNT e c < 8 \<longrightarrow>
          NCOUNT e (INC e c) = NCOUNT e c + 1 \<and> ALIVE e (INC e c) = ALIVE e c) \<and>
     (\<forall>c. 0 < NCOUNT e c \<and> NCOUNT e c \<le> 8 \<longrightarrow>
          NCOUNT e (DEC e c) = NCOUNT e c - 1 \<and> ALIVE e (DEC e c) = ALIVE e c) \<and>
     (\<forall>c. ALIVE e c \<noteq> 0 \<longrightarrow> (TOKILL e c \<longleftrightarrow> NCOUNT e c \<noteq> 2 \<and> NCOUNT e c \<noteq> 3)) \<and>
     (\<forall>c. ALIVE e c = 0 \<longrightarrow> (TOSPAWN e c \<longleftrightarrow> NCOUNT e c = 3))"

text \<open>
  One encoding that meets the contract (lemma \<open>nibble_enc_ok\<close>), used to run the
  model on concrete boards: bit 4 of the byte is the alive flag, the low four bits are
  the neighbour count; \<open>SPAWN\<close> sets bit 4 and \<open>KILL\<close> clears it.
\<close>

definition nibble_enc :: encoding where
  "nibble_enc =
     \<lparr> ALIVE = (\<lambda>c. if odd (unat c div 16) then 1 else 0),
       TOKILL = (\<lambda>c. unat c mod 16 \<noteq> 2 \<and> unat c mod 16 \<noteq> 3),
       TOSPAWN = (\<lambda>c. unat c mod 16 = 3),
       SPAWN = (\<lambda>c. if odd (unat c div 16) then c else c + 16),
       KILL = (\<lambda>c. if odd (unat c div 16) then c - 16 else c),
       INC = (\<lambda>c. c + 1),
       DEC = (\<lambda>c. c - 1),
       NCOUNT = (\<lambda>c. unat c mod 16) \<rparr>"

text \<open>
  Modelled from the spec: \<^verbatim>\<open>mod\<close> of util.h (not in the sources) is the index
  arithmetic modulo the board size, with a result in \<open>[0, m)\<close> also for \<open>x = -1\<close>.
\<close>

definition mod_util :: "int \<Rightarrow> int \<Rightarrow> int" where
  "mod_util x m = x mod m"

text \<open>
  Modelled from the spec: the macro \<^verbatim>\<open>BOARD(b, i, j)\<close> of life.h addresses cell
  \<open>(i, j)\<close> of a row-major buffer whose row length is the global \<^verbatim>\<open>LDA\<close>;
  \<^verbatim>\<open>parallel_game_of_life\<close> sets \<^verbatim>\<open>LDA = nrows\<close>. The global is passed as the
  argument \<open>lda\<close>.
\<close>

definition BOARD :: "int \<Rightarrow> int \<Rightarrow> int \<Rightarrow> nat" where
  "BOARD lda i j = nat (i * lda + j)"

definition N_INC :: "encoding \<Rightarrow> int \<Rightarrow> board \<Rightarrow> int \<Rightarrow> int \<Rightarrow> board" where
  "N_INC e lda b i j = b[BOARD lda i j := INC e (b ! BOARD lda i j)]"

definition N_DEC :: "encoding \<Rightarrow> int \<Rightarrow> board \<Rightarrow> int \<Rightarrow> int \<Rightarrow> board" where
  "N_DEC e lda b i j = b[BOARD lda i j := DEC e (b ! BOARD lda i j)]"

section \<open>The per-cell transition\<close>

definition kill_cell :: "encoding \<Rightarrow> int \<Rightarrow> board \<Rightarrow> int \<Rightarrow> int \<Rightarrow> int \<Rightarrow> board" where
  "kill_cell e lda outboard i j sz =
     (let b0 = outboard[BOARD lda i j := KILL e (outboard ! BOARD lda i j)];
          jwest = mod_util (j - 1) sz;
          jeast = mod_util (j + 1) sz;
          inorth = mod_util (i - 1) sz;
          isouth = mod_util (i + 1) sz;
          b1 = N_DEC e lda b0 inorth jwest;
          b2 = N_DEC e lda b1 inorth j;
          b3 = N_DEC e lda b2 inorth jeast;
          b4 = N_DEC e lda b3 i jwest;
          b5 = N_DEC e lda b4 i jeast;
          b6 = N_DEC e lda b5 isouth jwest;
          b7 = N_DEC e lda b6 isouth j
      in N_DEC e lda b7 isouth jeast)"

definition spawn_cell :: "encoding \<Rightarrow> int \<Rightarrow> board \<Rightarrow> int \<Rightarrow> int \<Rightarrow> int \<Rightarrow> board" where
  "spawn_cell e lda outboard i j sz =
     (let b0 = outboard[BOARD lda i j := SPAWN e (outboard ! BOARD lda i j)];
          jwest = mod_util (j - 1) sz;
          jeast = mod_util (j + 1) sz;
          inorth = mod_util (i - 1) sz;
          isouth = mod_util (i + 1) sz;
          b1 = N_INC e lda b0 inorth jwest;
          b2 = N_INC e lda b1 inorth j;
          b3 = N_INC e lda b2 inorth jeast;
          b4 = N_INC e lda b3 i jwest;
          b5 = N_INC e lda b4 i jeast;
          b6 = N_INC e lda b5 isouth jwest;
          b7 = N_INC e lda b6 isouth j
      in N_INC e lda b7 isouth jeast)"

text \<open>\<^verbatim>\<open>do_cell\<close> reads \<open>inboard\<close> and returns the new \<open>outboard\<close>.\<close>

definition do_cell :: "encoding \<Rightarrow> int \<Rightarrow> board \<Rightarrow> board \<Rightarrow> int \<Rightarrow> int \<Rightarrow> int \<Rightarrow> board" where
  "do_cell e lda outboard inboard i j sz =
     (let cell = inboard ! BOARD lda i j in
      if ALIVE e cell \<noteq> 0 then
        (if TOKILL e cell then
           (let b0 = outboard[BOARD lda i j := KILL e (outboard ! BOARD lda i j)];
                jwest = mod_util (j - 1) sz;
                jeast = mod_util (j + 1) sz;
                inorth = mod_util (i - 1) sz;
                isouth = mod_util (i + 1) sz;
                b1 = N_DEC e lda b0 inorth jwest;
                b2 = N_DEC e lda b1 inorth j;
                b3 = N_DEC e lda b2 inorth jeast;
                b4 = N_DEC e lda b3 i jwest;
                b5 = N_DEC e lda b4 i jeast;
                b6 = N_DEC e lda b5 isouth jwest;
                b7 = N_DEC e lda b6 isouth j
            in N_DEC e lda b7 isouth jeast)
         else outboard)
      else
        (if TOSPAWN e cell then
           (let b0 = outboard[BOARD lda i j := SPAWN e (outboard ! BOARD lda i j)];
                jwest = mod_util (j - 1) sz;
                jeast = mod_util (j + 1) sz;
                inorth = mod_util (i - 1) sz;
                isouth = mod_util (i + 1) sz;
                b1 = N_INC e lda b0 inorth jwest;
                b2 = N_INC e lda b1 inorth j;
                b3 = N_INC e lda b2 inorth jeast;
                b4 = N_INC e lda b3 i jwest;
                b5 = N_INC e lda b4 i jeast;
                b6 = N_INC e lda b5 isouth jwest;
                b7 = N_INC e lda b6 isouth j
            in N_INC e lda b7 isouth jeast)
         else outboard))"

section \<open>The board codec\<close>

text \<open>
  \<^verbatim>\<open>preprocessing_board\<close> works in place on \<open>inboard\<close> and then copies it to
  \<open>outboard\<close>; the model returns both buffers. The body of its second loop:
\<close>

definition pre_cell :: "encoding \<Rightarrow> int \<Rightarrow> board \<Rightarrow> int \<Rightarrow> int \<Rightarrow> int \<Rightarrow> board" where
  "pre_cell e lda board i j sz =
     (if ALIVE e (board ! BOARD lda i j) \<noteq> 0 then
        (let jwest = mod_util (j - 1) sz;
             jeast = mod_util (j + 1) sz;
             inorth = mod_util (i - 1) sz;
             isouth = mod_util (i + 1) sz;
             b1 = N_INC e lda board inorth jwest;
             b2 = N_INC e lda b1 inorth j;
             b3 = N_INC e lda b2 inorth jeast;
             b4 = N_INC e lda b3 i jwest;
             b5 = N_INC e lda b4 i jeast;
             b6 = N_INC e lda b5 isouth jwest;
             b7 = N_INC e lda b6 isouth j
         in N_INC e lda b7 isouth jeast)
      else board)"

definition preprocessing_board ::
    "encoding \<Rightarrow> int \<Rightarrow> board \<Rightarrow> board \<Rightarrow> int \<Rightarrow> board \<times> board" where
  "preprocessing_board e lda inboard outboard sz =
     (let total_size = nat (sz * sz);
          board1 = foldl (\<lambda>b i. if b ! i = 1 then b[i := SPAWN e 0] else b)
                     inboard [0..<total_size];
          board2 = foldl (\<lambda>b i. foldl (\<lambda>b j. pre_cell e lda b i j sz) b [0..sz - 1])
                     board1 [0..sz - 1]
      in (board2, take total_size board2 @ drop total_size outboard))"

definition postprocessing_board :: "encoding \<Rightarrow> board \<Rightarrow> int \<Rightarrow> int \<Rightarrow> board" where
  "postprocessing_board e board nrows ncols =
     foldl (\<lambda>b i. b[i := ALIVE e (b ! i)]) board [0..<nat (nrows * ncols)]"

section \<open>The row-sliced worker\<close>

text \<open>
  A row index outside \<open>[0, nrows)\<close> addresses memory outside the board (undefined
  behaviour in C): the model stops with \<open>OutOfBoard\<close>.
\<close>

datatype error = OutOfBoard

text \<open>
  The locked update the worker inlines for the two margin rows at each end of its slice.
  The mutex makes the call of \<^verbatim>\<open>kill_cell\<close> or \<^verbatim>\<open>spawn_cell\<close> one atomic step.
\<close>

definition margin_cell ::
    "encoding \<Rightarrow> int \<Rightarrow> board \<Rightarrow> board \<Rightarrow> int \<Rightarrow> int \<Rightarrow> int \<Rightarrow> board" where
  "margin_cell e lda outboard inboard i j nrows =
     (if ALIVE e (inboard ! BOARD lda i j) \<noteq> 0 then
        (if TOKILL e (inboard ! BOARD lda i j) then kill_cell e lda outboard i j nrows
         else outboard)
      else
        (if TOSPAWN e (inboard ! BOARD lda i j) then spawn_cell e lda outboard i j nrows
         else outboard))"

fun rows_loop :: "(board \<Rightarrow> int \<Rightarrow> board) \<Rightarrow> int \<Rightarrow> int list \<Rightarrow> board \<Rightarrow> error + board" where
  "rows_loop f nrows [] b = Inr b"
| "rows_loop f nrows (i # rest) b =
     (if 0 \<le> i \<and> i < nrows then rows_loop f nrows rest (f b i) else Inl OutOfBoard)"

text \<open>The three row loops of the worker for one column \<open>j\<close>.\<close>

definition worker_column ::
    "encoding \<Rightarrow> int \<Rightarrow> board \<Rightarrow> int \<Rightarrow> int \<Rightarrow> int \<Rightarrow> int \<Rightarrow> board \<Rightarrow> error + board" where
  "worker_column e lda inboard nrows start end j outboard =
     (case rows_loop (\<lambda>b i. margin_cell e lda b inboard i j nrows) nrows
             [start..start + 2 - 1] outboard of
        Inl err \<Rightarrow> Inl err
      | Inr b1 \<Rightarrow>
          (case rows_loop (\<lambda>b i. do_cell e lda b inboard i j nrows) nrows
                  [start + 2..end - 2 - 1] b1 of
             Inl err \<Rightarrow> Inl err
           | Inr b2 \<Rightarrow>
               rows_loop (\<lambda>b i. margin_cell e lda b inboard i j nrows) nrows
                 [end - 2..end - 1] b2))"

fun cols_loop :: "(int \<Rightarrow> board \<Rightarrow> error + board) \<Rightarrow> int list \<Rightarrow> board \<Rightarrow> error + board" where
  "cols_loop f [] b = Inr b"
| "cols_loop f (j # rest) b =
     (case f j b of Inl err \<Rightarrow> Inl err | Inr b' \<Rightarrow> cols_loop f rest b')"

text \<open>
  The column sweep of worker \<open>ith_slice\<close> in one generation. \<open>T\<close> is the constant
  \<^verbatim>\<open>NUM_THREADS\<close> of life.h (not in the sources), taken as a parameter; it is
  positive, and \<open>nrows\<close> is not negative, so C's division is \<open>div\<close>.
\<close>

definition worker_sweep ::
    "encoding \<Rightarrow> int \<Rightarrow> int \<Rightarrow> board \<Rightarrow> int \<Rightarrow> int \<Rightarrow> int \<Rightarrow> board \<Rightarrow> error + board" where
  "worker_sweep e T lda inboard nrows ncols ith_slice outboard =
     (let slice_size = nrows div T;
          start = ith_slice * slice_size;
          end = start + slice_size
      in cols_loop (worker_column e lda inboard nrows start end) [0..ncols - 1] outboard)"

text \<open>
  The \<^verbatim>\<open>memcpy\<close> between the two barrier waits: worker \<open>ith_slice\<close> copies its row
  band of \<open>outboard\<close> into \<open>inboard\<close>.
\<close>

definition copy_band :: "int \<Rightarrow> int \<Rightarrow> int \<Rightarrow> board \<Rightarrow> int \<Rightarrow> board \<Rightarrow> board" where
  "copy_band T nrows ncols outboard ith_slice inboard =
     (let slice_size = nrows div T;
          start = ith_slice * slice_size;
          off = nat (start * ncols);
          len = nat (slice_size * ncols)
      in take off inboard @ take len (drop off outboard) @ drop (off + len) inboard)"

text \<open>
  One generation of all \<open>T\<close> workers. The barrier separates the sweeps, which only
  read \<open>inboard\<close>, from the copies, which only read \<open>outboard\<close>. Every update of
  \<open>outboard\<close> by a sweep is one atomic step (locked on the margins, on rows no other
  worker touches in the interior); the model runs the workers one after the other, and
  \<open>sweep_order_irrelevant\<close> below shows that the order of the steps does not matter.
\<close>

definition generation ::
    "encoding \<Rightarrow> int \<Rightarrow> int \<Rightarrow> int \<Rightarrow> int \<Rightarrow> board \<times> board \<Rightarrow> error + board \<times> board" where
  "generation e T lda nrows ncols bs =
     (case cols_loop (worker_sweep e T lda (fst bs) nrows ncols) [0..T - 1] (snd bs) of
        Inl err \<Rightarrow> Inl err
      | Inr outboard \<Rightarrow>
          Inr (foldl (\<lambda>inb t. copy_band T nrows ncols outboard t inb) (fst bs) [0..T - 1],
               outboard))"

fun generations ::
    "encoding \<Rightarrow> int \<Rightarrow> int \<Rightarrow> int \<Rightarrow> int \<Rightarrow> nat \<Rightarrow> board \<times> board \<Rightarrow> error + board \<times> board" where
  "generations e T lda nrows ncols 0 bs = Inr bs"
| "generations e T lda nrows ncols (Suc g) bs =
     (case generation e T lda nrows ncols bs of
        Inl err \<Rightarrow> Inl err
      | Inr bs' \<Rightarrow> generations e T lda nrows ncols g bs')"

section \<open>The engine\<close>

definition parallel_game_of_life ::
    "encoding \<Rightarrow> int \<Rightarrow> board \<Rightarrow> board \<Rightarrow> int \<Rightarrow> int \<Rightarrow> int \<Rightarrow> error + board" where
  "parallel_game_of_life e T outboard inboard nrows ncols gens_max =
     (let lda = nrows in
      case generations e T lda nrows ncols (nat gens_max)
             (preprocessing_board e lda inboard outboard nrows) of
        Inl err \<Rightarrow> Inl err
      | Inr bs \<Rightarrow> Inr (postprocessing_board e (snd bs) lda lda))"

text \<open>
  \<^verbatim>\<open>game_of_life\<close> returns a pointer: \<open>None\<close> is \<^verbatim>\<open>NULL\<close>, \<open>Some b\<close> the
  contents of the returned buffer. \<^verbatim>\<open>sequential_game_of_life\<close> is defined outside
  the sources and is the parameter \<open>seq\<close>.
\<close>

definition game_of_life ::
    "encoding \<Rightarrow> int \<Rightarrow> (board \<Rightarrow> board \<Rightarrow> int \<Rightarrow> int \<Rightarrow> int \<Rightarrow> error + board option) \<Rightarrow>
     board \<Rightarrow> board \<Rightarrow> int \<Rightarrow> int \<Rightarrow> int \<Rightarrow> error + board option" where
  "game_of_life e T seq outboard inboard nrows ncols gens_max =
     (if nrows < 32 then seq outboard inboard nrows ncols gens_max
      else if nrows > 10000 \<or> ncols > 10000 then Inr None
      else map_sum id Some (parallel_game_of_life e T outboard inboard nrows ncols gens_max))"

section \<open>The naive reference\<close>

text \<open>
  Following the spec's words (8): a per-generation recomputation of Conway's rule with no
  incremental state, on a plain board, with the full sum over the eight toroidal
  neighbours. On a board smaller than 3 \<times> 3 the eight neighbour positions are not
  all different; the sum over the eight offsets counts each of them, as the code's
  eight increments do.
\<close>

definition plain_board :: "int \<Rightarrow> board \<Rightarrow> bool" where
  "plain_board n b \<longleftrightarrow> int (length b) = n * n \<and> (\<forall>k < length b. b ! k = 0 \<or> b ! k = 1)"

definition offsets :: "(int \<times> int) list" where
  "offsets = [(-1, -1), (-1, 0), (-1, 1), (0, -1), (0, 1), (1, -1), (1, 0), (1, 1)]"

definition naive_count :: "int \<Rightarrow> board \<Rightarrow> int \<Rightarrow> int \<Rightarrow> nat" where
  "naive_count n b i j =
     length (filter (\<lambda>(di, dj). b ! nat (((i + di) mod n) * n + (j + dj) mod n) = 1) offsets)"

definition naive_cell :: "int \<Rightarrow> board \<Rightarrow> int \<Rightarrow> int \<Rightarrow> cell" where
  "naive_cell n b i j =
     (let c = naive_count n b i j in
      if b ! nat (i * n + j) = 1 then (if c = 2 \<or> c = 3 then 1 else 0)
      else (if c = 3 then 1 else 0))"

definition naive_generation :: "int \<Rightarrow> board \<Rightarrow> board" where
  "naive_generation n b =
     map (\<lambda>k. naive_cell n b (int k div n) (int k mod n)) [0..<nat (n * n)]"

definition naive_life :: "int \<Rightarrow> nat \<Rightarrow> board \<Rightarrow> board" where
  "naive_life n g b = (naive_generation n ^^ g) b"

section \<open>Auxiliary notions for the proofs\<close>

text \<open>One read-modify-write of a single cell, as \<^verbatim>\<open>N_INC\<close>, \<^verbatim>\<open>N_DEC\<close> do it.\<close>

definition upd :: "(cell \<Rightarrow> cell) \<Rightarrow> board \<Rightarrow> nat \<Rightarrow> board" where
  "upd f b k = b[k := f (b ! k)]"

text \<open>
  The eight cells \<^verbatim>\<open>kill_cell\<close>, \<^verbatim>\<open>spawn_cell\<close>, \<^verbatim>\<open>do_cell\<close> and
  \<^verbatim>\<open>preprocessing_board\<close> address around \<open>(i, j)\<close>, in the order of the code.
\<close>

definition nbrs :: "int \<Rightarrow> int \<Rightarrow> int \<Rightarrow> int \<Rightarrow> nat list" where
  "nbrs lda i j sz =
     [BOARD lda (mod_util (i - 1) sz) (mod_util (j - 1) sz),
      BOARD lda (mod_util (i - 1) sz) j,
      BOARD lda (mod_util (i - 1) sz) (mod_util (j + 1) sz),
      BOARD lda i (mod_util (j - 1) sz),
      BOARD lda i (mod_util (j + 1) sz),
      BOARD lda (mod_util (i + 1) sz) (mod_util (j - 1) sz),
      BOARD lda (mod_util (i + 1) sz) j,
      BOARD lda (mod_util (i + 1) sz) (mod_util (j + 1) sz)]"

text \<open>The eight toroidal neighbours of \<open>(i, j)\<close> on an \<open>n \<times> n\<close> board.\<close>

definition torus_nbrs :: "int \<Rightarrow> int \<Rightarrow> int \<Rightarrow> nat list" where
  "torus_nbrs n i j = map (\<lambda>(di, dj). BOARD n ((i + di) mod n) ((j + dj) mod n)) offsets"

text \<open>What visiting cell \<open>v\<close> does to the cell at index \<open>k\<close> of the next buffer.\<close>

definition cell_effect ::
    "encoding \<Rightarrow> int \<Rightarrow> board \<Rightarrow> int \<Rightarrow> int \<times> int \<Rightarrow> nat \<Rightarrow> cell \<Rightarrow> cell" where
  "cell_effect e lda inboard sz v k c =
     (let cur = inboard ! BOARD lda (fst v) (snd v);
          m = count_list (nbrs lda (fst v) (snd v) sz) k
      in if ALIVE e cur \<noteq> 0 then
           (if TOKILL e cur then
              (DEC e ^^ m) (if k = BOARD lda (fst v) (snd v) then KILL e c else c)
            else c)
         else
           (if TOSPAWN e cur then
              (INC e ^^ m) (if k = BOARD lda (fst v) (snd v) then SPAWN e c else c)
            else c))"

text \<open>The rows the three loops of \<open>worker_column\<close> visit, in order.\<close>

definition slice_rows :: "int \<Rightarrow> int \<Rightarrow> int list" where
  "slice_rows start end = [start..start + 2 - 1] @ [start + 2..end - 2 - 1] @ [end - 2..end - 1]"

text \<open>The eight toroidal neighbours of the cell with flat index \<open>k\<close>.\<close>

definition flat_nbrs :: "int \<Rightarrow> nat \<Rightarrow> nat list" where
  "flat_nbrs n k = torus_nbrs n (int k div n) (int k mod n)"

text \<open>The current cell at index \<open>q\<close> is alive and must die.\<close>

definition dies :: "encoding \<Rightarrow> board \<Rightarrow> nat \<Rightarrow> bool" where
  "dies e b q \<longleftrightarrow> ALIVE e (b ! q) \<noteq> 0 \<and> TOKILL e (b ! q)"

text \<open>The current cell at index \<open>q\<close> is dead and must spawn.\<close>

definition spawns :: "encoding \<Rightarrow> board \<Rightarrow> nat \<Rightarrow> bool" where
  "spawns e b q \<longleftrightarrow> ALIVE e (b ! q) = 0 \<and> TOSPAWN e (b ! q)"

text \<open>\<open>cell_effect\<close> for an in-range visit of a square board, by flat index.\<close>

definition flat_effect :: "encoding \<Rightarrow> int \<Rightarrow> board \<Rightarrow> nat \<Rightarrow> nat \<Rightarrow> cell \<Rightarrow> cell" where
  "flat_effect e n inb q k c =
     (if dies e inb q then
        (DEC e ^^ count_list (flat_nbrs n q) k) (if k = q then KILL e c else c)
      else if spawns e inb q then
        (INC e ^^ count_list (flat_nbrs n q) k) (if k = q then SPAWN e c else c)
      else c)"

text \<open>How often the visits \<open>qs\<close> decrement cell \<open>k\<close> of the next buffer.\<close>

definition down :: "encoding \<Rightarrow> int \<Rightarrow> board \<Rightarrow> nat \<Rightarrow> nat list \<Rightarrow> nat" where
  "down e n inb k qs =
     sum_list (map (\<lambda>q. if dies e inb q then count_list (flat_nbrs n q) k else 0) qs)"

text \<open>How often the visits \<open>qs\<close> increment cell \<open>k\<close> of the next buffer.\<close>

definition up :: "encoding \<Rightarrow> int \<Rightarrow> board \<Rightarrow> nat \<Rightarrow> nat list \<Rightarrow> nat" where
  "up e n inb k qs =
     sum_list (map (\<lambda>q. if spawns e inb q then count_list (flat_nbrs n q) k else 0) qs)"

text \<open>The visits \<open>qs\<close> reach every cell of an \<open>N\<close>-cell board exactly \<open>w\<close> times: stated through sums, which is all the proofs use.\<close>

definition covers :: "nat \<Rightarrow> nat \<Rightarrow> nat list \<Rightarrow> bool" where
  "covers w N qs \<longleftrightarrow> (\<forall>g :: nat \<Rightarrow> nat. sum_list (map g qs) = w * sum_list (map g [0..<N]))"

text \<open>The cells all workers visit in one generation, in the order of the model: worker by worker, column by column, the rows of \<open>slice_rows\<close>.\<close>

definition visits :: "int \<Rightarrow> int \<Rightarrow> int \<Rightarrow> (int \<times> int) list" where
  "visits T nrows ncols =
     concat (map (\<lambda>t. concat (map (\<lambda>j. map (\<lambda>i. (i, j))
                 (slice_rows (t * (nrows div T)) (t * (nrows div T) + nrows div T)))
               [0..ncols - 1]))
       [0..T - 1])"

text \<open>Applying \<^verbatim>\<open>do_cell\<close> along a list of visits; the current buffer is not changed.\<close>

definition sweep :: "encoding \<Rightarrow> int \<Rightarrow> board \<Rightarrow> int \<Rightarrow> (int \<times> int) list \<Rightarrow> board \<Rightarrow> board" where
  "sweep e lda inb sz vs out = foldl (\<lambda>b v. do_cell e lda b inb (fst v) (snd v) sz) out vs"

text \<open>How often the row loops visit each row of a slice of \<open>s\<close> rows, for \<open>s \<ge> 4\<close> (once) and \<open>s = 2\<close> (twice).\<close>

definition slice_weight :: "int \<Rightarrow> nat" where
  "slice_weight s = (if 4 \<le> s then 1 else 2)"

text \<open>The visits of one generation on a square board, as flat indices.\<close>

definition fvisits :: "int \<Rightarrow> int \<Rightarrow> nat list" where
  "fvisits T n = map (\<lambda>v. BOARD n (fst v) (snd v)) (visits T n n)"

text \<open>The invariant of the encoded board: it has \<open>n * n\<close> cells and the neighbour-count field of every cell is the number of alive cells among its eight toroidal neighbours.\<close>

definition counts_ok :: "encoding \<Rightarrow> int \<Rightarrow> board \<Rightarrow> bool" where
  "counts_ok e n b \<longleftrightarrow>
     length b = nat (n * n) \<and>
     (\<forall>k<length b. NCOUNT e (b ! k) = length (filter (\<lambda>q. ALIVE e (b ! q) \<noteq> 0) (flat_nbrs n k)))"

text \<open>The body of the second loop of \<^verbatim>\<open>preprocessing_board\<close>, by flat index.\<close>

definition pre_flat :: "encoding \<Rightarrow> int \<Rightarrow> board \<Rightarrow> nat \<Rightarrow> board" where
  "pre_flat e n b q =
     (if ALIVE e (b ! q) \<noteq> 0 then foldl (upd (INC e)) b (flat_nbrs n q) else b)"

text \<open>The positions the second loop of \<^verbatim>\<open>preprocessing_board\<close> visits, in order.\<close>

definition cells2d :: "int \<Rightarrow> (int \<times> int) list" where
  "cells2d n = concat (map (\<lambda>i. map (\<lambda>j. (i, j)) [0..n - 1]) [0..n - 1])"

text \<open>
  A sample 32 \<times> 32 plain board: three alive cells at (5, 5), (5, 6) and (6, 5). Under
  Conway's rule it becomes the 2 \<times> 2 block with (6, 6) after one generation and stays so.
\<close>

definition tromino32 :: board where
  "tromino32 = (replicate 1024 0)[165 := 1, 166 := 1, 197 := 1]"

text \<open>Conway's rule on a table of alive flags \<open>A\<close> and neighbour counts \<open>C\<close>: cell \<open>q\<close> must die.\<close>

definition rule_dies :: "(nat \<Rightarrow> bool) \<Rightarrow> (nat \<Rightarrow> nat) \<Rightarrow> nat \<Rightarrow> bool" where
  "rule_dies A C q \<longleftrightarrow> A q \<and> C q \<noteq> 2 \<and> C q \<noteq> 3"

text \<open>Cell \<open>q\<close> must spawn.\<close>

definition rule_spawns :: "(nat \<Rightarrow> bool) \<Rightarrow> (nat \<Rightarrow> nat) \<Rightarrow> nat \<Rightarrow> bool" where
  "rule_spawns A C q \<longleftrightarrow> \<not> A q \<and> C q = 3"

text \<open>The alive flag of cell \<open>k\<close> after one generation, from the tables of the current buffer.\<close>

definition stepA :: "(nat \<Rightarrow> bool) \<Rightarrow> (nat \<Rightarrow> nat) \<Rightarrow> nat \<Rightarrow> bool" where
  "stepA A C k = (if rule_dies A C k then False else if rule_spawns A C k then True else A k)"

text \<open>The count field of cell \<open>k\<close> after a generation that visits every cell \<open>w\<close> times: each spawning neighbour adds \<open>w\<close>, each dying neighbour takes \<open>w\<close> away.\<close>

definition stepC :: "(nat \<Rightarrow> bool) \<Rightarrow> (nat \<Rightarrow> nat) \<Rightarrow> nat \<Rightarrow> int \<Rightarrow> nat \<Rightarrow> nat" where
  "stepC A C w n k =
     C k + w * length (filter (rule_spawns A C) (flat_nbrs n k))
         - w * length (filter (rule_dies A C) (flat_nbrs n k))"

text \<open>During such a generation the count field of cell \<open>k\<close> stays within 0 to 8, where the contract of the encoding fixes \<open>INC\<close> and \<open>DEC\<close>.\<close>

definition range_ok :: "(nat \<Rightarrow> bool) \<Rightarrow> (nat \<Rightarrow> nat) \<Rightarrow> nat \<Rightarrow> int \<Rightarrow> nat \<Rightarrow> bool" where
  "range_ok A C w n k \<longleftrightarrow>
     w * length (filter (rule_dies A C) (flat_nbrs n k)) \<le> C k \<and>
     C k + w * length (filter (rule_spawns A C) (flat_nbrs n k)) \<le> 8"

text \<open>The next buffer after the sweeps of all workers, both buffers holding \<open>b\<close> before.\<close>

definition gen_board :: "encoding \<Rightarrow> int \<Rightarrow> int \<Rightarrow> board \<Rightarrow> board" where
  "gen_board e T n b = sweep e n b n (visits T n n) b"

text \<open>The alive flags of a plain board, as a table.\<close>

definition plain_alive :: "board \<Rightarrow> nat \<Rightarrow> bool" where
  "plain_alive p q \<longleftrightarrow> p ! q \<noteq> 0"

text \<open>The number of alive toroidal neighbours on a plain board, as a table.\<close>

definition plain_count :: "int \<Rightarrow> board \<Rightarrow> nat \<Rightarrow> nat" where
  "plain_count n p k = length (filter (plain_alive p) (flat_nbrs n k))"

text \<open>One generation with 16 workers (slices of two rows) on the encoded sample board.\<close>

definition tromino_narrow_run :: "error + board \<times> board" where
  "tromino_narrow_run =
     generations nibble_enc 16 32 32 32 1
       (preprocessing_board nibble_enc 32 tromino32 (replicate 1024 0) 32)"


section \<open>The dispatcher\<close>

lemma index_fits_int:
  assumes "0 \<le> i" "i < n" "0 \<le> j" "j < n" "n \<le> 10000"
  shows "i * n + j < 2 ^ 31" "0 \<le> i * n + j" "n * n < (2::int) ^ 31"
proof -
  have "i * n \<le> 9999 * 10000"
    using assms by (intro mult_mono) auto
  then show "i * n + j < 2 ^ 31" using assms by simp
  show "0 \<le> i * n + j" using assms by simp
  have "n * n \<le> 10000 * 10000"
    using assms by (intro mult_mono) auto
  then show "n * n < (2::int) ^ 31" by simp
qed

section \<open>The concrete encoding meets the contract\<close>

lemma unat_plus16: "unat (c + 16 :: 8 word) = (unat c + 16) mod 256"
  by (simp add: unat_word_ariths)

lemma unat_plus1: "unat (c + 1 :: 8 word) = (unat c + 1) mod 256"
  by (simp add: unat_word_ariths)

lemma unat_minus1: "unat (c - 1 :: 8 word) = (unat c + 255) mod 256"
proof -
  have "c - 1 = c + (- 1)" by simp
  moreover have "(- 1 :: 8 word) = 255" by simp
  ultimately have "c - 1 = c + 255" by (simp only:)
  then have "unat (c - 1) = unat (c + 255)" by (simp only:)
  also have "\<dots> = (unat c + 255) mod 256" by (simp add: unat_word_ariths)
  finally show ?thesis .
qed

lemma unat_minus16: "unat (c - 16 :: 8 word) = (unat c + 240) mod 256"
proof -
  have "c - 16 = c + (- 16)" by simp
  moreover have "(- 16 :: 8 word) = 240" by simp
  ultimately have "c - 16 = c + 240" by (simp only:)
  then have "unat (c - 16) = unat (c + 240)" by (simp only:)
  also have "\<dots> = (unat c + 240) mod 256" by (simp add: unat_word_ariths)
  finally show ?thesis .
qed

lemma unat_lt256: "unat (c :: 8 word) < 256"
  using unsigned_less[of c, where ?'a = nat] by simp

lemma nibble_inc:
  fixes u :: nat
  assumes "u < 256" "u mod 16 < 8"
  shows "(u + 1) mod 256 mod 16 = u mod 16 + 1 \<and> (u + 1) mod 256 div 16 = u div 16"
proof -
  have "u \<noteq> 255" using assms(2) by auto
  then have "(u + 1) mod 256 = Suc u" using assms(1) by simp
  then show ?thesis using assms(2) by (simp add: mod_Suc div_Suc)
qed

lemma nibble_dec:
  fixes u :: nat
  assumes "u < 256" "0 < u mod 16"
  shows "(u + 255) mod 256 mod 16 = u mod 16 - 1 \<and> (u + 255) mod 256 div 16 = u div 16"
proof -
  obtain v where v: "u = Suc v" using assms(2) by (cases u) auto
  have "(u + 255) mod 256 = (v + 256) mod 256" by (simp add: v)
  also have "\<dots> = v" using assms(1) v by simp
  finally have "(u + 255) mod 256 = v" .
  then show ?thesis using assms(2) by (simp add: v mod_Suc div_Suc split: if_splits)
qed

lemma nibble_spawn:
  fixes u :: nat
  assumes "u < 256" "even (u div 16)"
  shows "odd ((u + 16) mod 256 div 16) \<and> (u + 16) mod 256 mod 16 = u mod 16"
proof -
  have "u div 16 < 16" using assms(1) by simp
  moreover have "u div 16 \<noteq> 15" using assms(2) by auto
  ultimately have "u div 16 < 15" by linarith
  then have "u < 240" by simp
  then have "(u + 16) mod 256 = u + 16" by simp
  moreover have "(u + 16) div 16 = u div 16 + 1" using div_add_self2[of 16 u] by simp
  ultimately show ?thesis using assms(2) by simp
qed

lemma nibble_kill:
  fixes u :: nat
  assumes "u < 256" "odd (u div 16)"
  shows "even ((u + 240) mod 256 div 16) \<and> (u + 240) mod 256 mod 16 = u mod 16"
proof -
  have "u div 16 \<noteq> 0"
  proof
    assume "u div 16 = 0"
    with assms(2) show False by simp
  qed
  then have "16 \<le> u" by (simp add: div_eq_0_iff)
  then obtain v where v: "u = v + 16" by (metis le_add_diff_inverse2)
  have "(u + 240) mod 256 = (v + 256) mod 256" by (simp add: v)
  also have "\<dots> = v" using assms(1) v by simp
  finally have "(u + 240) mod 256 = v" .
  moreover have "(v + 16) div 16 = v div 16 + 1" using div_add_self2[of 16 v] by simp
  ultimately show ?thesis using assms(2) by (simp add: v)
qed

lemma nibble_enc_ok: "enc_ok nibble_enc"
  unfolding enc_ok_def nibble_enc_def
  using unat_lt256 nibble_inc nibble_dec nibble_spawn nibble_kill
  by (simp add: unat_plus16 unat_plus1 unat_minus1 unat_minus16)

section \<open>Cell updates, pointwise\<close>

lemma N_INC_upd: "N_INC e lda b i j = upd (INC e) b (BOARD lda i j)"
  by (simp add: N_INC_def upd_def)

lemma N_DEC_upd: "N_DEC e lda b i j = upd (DEC e) b (BOARD lda i j)"
  by (simp add: N_DEC_def upd_def)

lemma kill_cell_fold:
  "kill_cell e lda out i j sz = foldl (upd (DEC e)) (upd (KILL e) out (BOARD lda i j)) (nbrs lda i j sz)"
  by (simp add: kill_cell_def nbrs_def N_DEC_upd Let_def upd_def[of "KILL e"])

lemma spawn_cell_fold:
  "spawn_cell e lda out i j sz = foldl (upd (INC e)) (upd (SPAWN e) out (BOARD lda i j)) (nbrs lda i j sz)"
  by (simp add: spawn_cell_def nbrs_def N_INC_upd Let_def upd_def[of "SPAWN e"])

lemma pre_cell_fold:
  "pre_cell e lda b i j sz =
     (if ALIVE e (b ! BOARD lda i j) \<noteq> 0 then foldl (upd (INC e)) b (nbrs lda i j sz) else b)"
  by (simp add: pre_cell_def nbrs_def N_INC_upd Let_def)

lemma margin_cell_do_cell:
  "margin_cell e lda out inb i j sz = do_cell e lda out inb i j sz"
  by (simp add: margin_cell_def do_cell_def kill_cell_def spawn_cell_def Let_def N_INC_upd N_DEC_upd)

lemma do_cell_cases:
  "do_cell e lda out inb i j sz =
     (if ALIVE e (inb ! BOARD lda i j) \<noteq> 0 then
        (if TOKILL e (inb ! BOARD lda i j) then kill_cell e lda out i j sz else out)
      else
        (if TOSPAWN e (inb ! BOARD lda i j) then spawn_cell e lda out i j sz else out))"
  using margin_cell_do_cell[of e lda out inb i j sz] by (simp add: margin_cell_def)

lemma length_upd [simp]: "length (upd f b k) = length b"
  by (simp add: upd_def)

lemma length_foldl_upd [simp]: "length (foldl (upd f) b ks) = length b"
  by (induction ks arbitrary: b) simp_all

lemma nth_upd: "k < length b \<Longrightarrow> upd f b a ! k = (if k = a then f (b ! k) else b ! k)"
  by (simp add: upd_def nth_list_update)

lemma nth_foldl_upd:
  "k < length b \<Longrightarrow> foldl (upd f) b ks ! k = (f ^^ count_list ks k) (b ! k)"
proof (induction ks arbitrary: b)
  case Nil
  then show ?case by simp
next
  case (Cons a ks)
  have "foldl (upd f) (upd f b a) ks ! k = (f ^^ count_list ks k) (upd f b a ! k)"
    using Cons.prems by (intro Cons.IH) simp
  then show ?case
    using Cons.prems by (simp add: nth_upd funpow_swap1)
qed

lemma length_do_cell [simp]: "length (do_cell e lda out inb i j sz) = length out"
  by (simp add: do_cell_cases kill_cell_fold spawn_cell_fold)

lemma do_cell_nth:
  "k < length out \<Longrightarrow> do_cell e lda out inb i j sz ! k = cell_effect e lda inb sz (i, j) k (out ! k)"
  by (simp add: do_cell_cases kill_cell_fold spawn_cell_fold cell_effect_def nth_foldl_upd nth_upd)

section \<open>Indices on the torus\<close>

lemma mod_succ: "0 \<le> x \<Longrightarrow> x < n \<Longrightarrow> (x + 1) mod n = (if x = n - 1 then 0 else x + 1)" for x n :: int
  by auto

lemma mod_pred: "0 \<le> x \<Longrightarrow> x < n \<Longrightarrow> (x - 1) mod n = (if x = 0 then n - 1 else x - 1)" for x n :: int
proof -
  assume a: "0 \<le> x" "x < n"
  show ?thesis
  proof (cases "x = 0")
    case True
    have "(- 1) mod n = n - 1" using a True by (simp add: zmod_minus1)
    then show ?thesis using True by simp
  next
    case False
    then show ?thesis using a by simp
  qed
qed

lemma flat_div: "0 \<le> j \<Longrightarrow> j < n \<Longrightarrow> (i * n + j) div n = i" for i j n :: int
  by simp

lemma flat_mod: "0 \<le> j \<Longrightarrow> j < n \<Longrightarrow> (i * n + j) mod n = j" for i j n :: int
  by simp

lemma flat_nonneg: "0 \<le> i \<Longrightarrow> 0 \<le> j \<Longrightarrow> 0 \<le> n \<Longrightarrow> 0 \<le> i * n + j" for i j n :: int
  by simp

lemma flat_less: "0 \<le> i \<Longrightarrow> i < n \<Longrightarrow> 0 \<le> j \<Longrightarrow> j < n \<Longrightarrow> i * n + j < n * n" for i j n :: int
proof -
  assume a: "0 \<le> i" "i < n" "0 \<le> j" "j < n"
  have "i * n + j < i * n + n" using a by simp
  also have "\<dots> = (i + 1) * n" by (simp add: algebra_simps)
  also have "\<dots> \<le> n * n" using a by (intro mult_right_mono) auto
  finally show ?thesis .
qed

lemma BOARD_inj:
  assumes "0 \<le> i" "i < n" "0 \<le> j" "j < n" "0 \<le> i'" "i' < n" "0 \<le> j'" "j' < n"
  shows "BOARD n i j = BOARD n i' j' \<longleftrightarrow> i = i' \<and> j = j'"
proof
  assume "BOARD n i j = BOARD n i' j'"
  moreover have "0 \<le> i * n + j" "0 \<le> i' * n + j'"
    using assms by simp_all
  ultimately have eq: "i * n + j = i' * n + j'"
    by (simp add: BOARD_def)
  have "i = i'" using flat_div[of j n i] flat_div[of j' n i'] assms eq by simp
  moreover have "j = j'" using flat_mod[of j n i] flat_mod[of j' n i'] assms eq by simp
  ultimately show "i = i' \<and> j = j'" ..
qed simp

lemma BOARD_less:
  "0 \<le> i \<Longrightarrow> i < n \<Longrightarrow> 0 \<le> j \<Longrightarrow> j < n \<Longrightarrow> BOARD n i j < nat (n * n)"
  using flat_less[of i n j] by (simp add: BOARD_def)

lemma nbrs_torus:
  "0 \<le> i \<Longrightarrow> i < n \<Longrightarrow> 0 \<le> j \<Longrightarrow> j < n \<Longrightarrow> nbrs n i j n = torus_nbrs n i j"
  by (simp add: nbrs_def torus_nbrs_def offsets_def mod_util_def)

lemma naive_count_torus:
  "naive_count n b i j = length (filter (\<lambda>k. b ! k = 1) (torus_nbrs n i j))"
  by (simp add: naive_count_def torus_nbrs_def filter_map o_def case_prod_unfold BOARD_def)

lemma distinct_torus_nbrs:
  assumes "3 \<le> n" "0 \<le> i" "i < n" "0 \<le> j" "j < n"
  shows "distinct (torus_nbrs n i j)" "BOARD n i j \<notin> set (torus_nbrs n i j)"
proof -
  define N where "N = (i - 1) mod n"
  define S where "S = (i + 1) mod n"
  define W where "W = (j - 1) mod n"
  define E where "E = (j + 1) mod n"
  have r: "0 \<le> N" "N < n" "0 \<le> S" "S < n" "0 \<le> W" "W < n" "0 \<le> E" "E < n"
    using assms by (simp_all add: N_def S_def W_def E_def)
  have d: "N \<noteq> i" "S \<noteq> i" "N \<noteq> S" "W \<noteq> j" "E \<noteq> j" "W \<noteq> E"
    using assms by (auto simp: N_def S_def W_def E_def mod_succ mod_pred split: if_splits)
  have t: "torus_nbrs n i j =
      [BOARD n N W, BOARD n N j, BOARD n N E, BOARD n i W, BOARD n i E,
       BOARD n S W, BOARD n S j, BOARD n S E]"
    using assms by (simp add: torus_nbrs_def offsets_def N_def S_def W_def E_def)
  show "distinct (torus_nbrs n i j)"
    unfolding t using r d assms by (simp add: BOARD_inj) 
  show "BOARD n i j \<notin> set (torus_nbrs n i j)"
    unfolding t using r d assms by (simp add: BOARD_inj) 
qed

section \<open>The rows of a slice\<close>

lemma rows_loop_append:
  "rows_loop f nrows (xs @ ys) b =
     (case rows_loop f nrows xs b of Inl err \<Rightarrow> Inl err | Inr b' \<Rightarrow> rows_loop f nrows ys b')"
  by (induction xs arbitrary: b) simp_all

lemma worker_column_rows:
  "worker_column e lda inb nrows start end j out =
     rows_loop (\<lambda>b i. do_cell e lda b inb i j nrows) nrows (slice_rows start end) out"
  by (simp add: worker_column_def slice_rows_def rows_loop_append margin_cell_do_cell
      split: sum.splits)

lemma slice_rows_wide:
  assumes "4 \<le> s"
  shows "slice_rows start (start + s) = [start..start + s - 1]"
proof -
  have "[start..start + s - 1] = [start..start + 2 - 1] @ [start + 2..start + s - 1]"
    using assms by (intro upto_split1) auto
  also have "[start + 2..start + s - 1] = [start + 2..start + s - 2 - 1] @ [start + s - 2..start + s - 1]"
    using assms by (intro upto_split1) auto
  finally show ?thesis by (simp add: slice_rows_def)
qed

lemma length_slice_rows: "length (slice_rows start (start + s)) = 4 + nat (s - 4)"
  by (simp add: slice_rows_def)

lemma slice_rows_narrow:
  assumes "0 < s" "s < 4"
  shows "\<exists>r\<in>{start..start + s - 1}. count_list (slice_rows start (start + s)) r = 2"
proof -
  consider "s = 1" | "s = 2" | "s = 3" using assms by linarith
  then show ?thesis
  proof cases
    case 1
    have "count_list (slice_rows start (start + s)) start = 2"
      by (simp add: slice_rows_def 1 upto_rec1)
    then show ?thesis using 1 by auto
  next
    case 2
    have "count_list (slice_rows start (start + s)) (start + 1) = 2"
      by (simp add: slice_rows_def 2 upto_rec1)
    then show ?thesis using 2 by auto
  next
    case 3
    have "count_list (slice_rows start (start + s)) (start + 1) = 2"
      by (simp add: slice_rows_def 3 upto_rec1)
    then show ?thesis using 3 by auto
  qed
qed

lemma slice_rows_exact_iff:
  "mset (slice_rows start (start + s)) = mset [start..start + s - 1] \<longleftrightarrow> 4 \<le> s"
proof
  assume "mset (slice_rows start (start + s)) = mset [start..start + s - 1]"
  then have "size (mset (slice_rows start (start + s))) = size (mset [start..start + s - 1])"
    by simp
  then have "4 + nat (s - 4) = nat s"
    by (simp add: length_slice_rows)
  then show "4 \<le> s" by linarith
next
  assume "4 \<le> s"
  then show "mset (slice_rows start (start + s)) = mset [start..start + s - 1]"
    by (simp add: slice_rows_wide)
qed

section \<open>The engine against the naive reference\<close>

lemma row_of_flat:
  assumes "0 < n" "k < nat (n * n)"
  shows "0 \<le> int k div n" "int k div n < n" "0 \<le> int k mod n" "int k mod n < n"
    "BOARD n (int k div n) (int k mod n) = k"
proof -
  show "0 \<le> int k div n" using assms by (simp add: pos_imp_zdiv_nonneg_iff)
  have "int k < n * n" using assms by linarith
  moreover have "n * (int k div n) + int k mod n = int k" by (rule mult_div_mod_eq)
  moreover have "0 \<le> int k mod n" using assms by simp
  ultimately have "n * (int k div n) < n * n" by linarith
  then show "int k div n < n" using assms(1) by (simp add: mult_less_cancel_left_pos)
  show "0 \<le> int k mod n" "int k mod n < n" using assms by simp_all
  show "BOARD n (int k div n) (int k mod n) = k" by (simp add: BOARD_def)
qed

lemma torus_flat:
  "0 \<le> i \<Longrightarrow> i < n \<Longrightarrow> 0 \<le> j \<Longrightarrow> j < n \<Longrightarrow> torus_nbrs n i j = flat_nbrs n (BOARD n i j)"
  by (simp add: flat_nbrs_def BOARD_def flat_div flat_mod)

lemma mod_shift_gen:
  fixes a c d n :: int
  assumes "0 \<le> a" "a < n" "0 \<le> c" "c < n"
  shows "((a + d) mod n = c) = ((c - d) mod n = a)"
proof
  assume "(a + d) mod n = c"
  then have "(c - d) mod n = ((a + d) mod n - d) mod n" by simp
  also have "\<dots> = (a + d - d) mod n" by (simp only: mod_diff_left_eq)
  also have "\<dots> = a" using assms by simp
  finally show "(c - d) mod n = a" .
next
  assume "(c - d) mod n = a"
  then have "(a + d) mod n = ((c - d) mod n + d) mod n" by simp
  also have "\<dots> = (c - d + d) mod n" by (simp only: mod_add_left_eq)
  also have "\<dots> = c" using assms by simp
  finally show "(a + d) mod n = c" .
qed

lemma count_list_map_filter: "count_list (map f xs) y = length (filter (\<lambda>x. f x = y) xs)"
  by (induction xs) simp_all

lemma rev_offsets: "rev offsets = map (\<lambda>(di, dj). (- di, - dj)) offsets"
  by (simp add: offsets_def)

lemma count_torus:
  assumes "0 \<le> c" "c < n" "0 \<le> d" "d < n"
  shows "count_list (torus_nbrs n a b) (BOARD n c d) =
         length (filter (\<lambda>(di, dj). (a + di) mod n = c \<and> (b + dj) mod n = d) offsets)"
proof -
  have n: "0 < n" using assms by linarith
  have "(BOARD n ((a + di) mod n) ((b + dj) mod n) = BOARD n c d) =
        ((a + di) mod n = c \<and> (b + dj) mod n = d)" for di dj
    using assms n by (intro BOARD_inj) simp_all
  then show ?thesis
    by (simp add: torus_nbrs_def count_list_map_filter case_prod_unfold)
qed

lemma count_torus_sym:
  assumes "0 \<le> a" "a < n" "0 \<le> b" "b < n" "0 \<le> c" "c < n" "0 \<le> d" "d < n"
  shows "count_list (torus_nbrs n a b) (BOARD n c d) = count_list (torus_nbrs n c d) (BOARD n a b)"
proof -
  let ?Q = "\<lambda>(di, dj). (c + di) mod n = a \<and> (d + dj) mod n = b"
  have "count_list (torus_nbrs n c d) (BOARD n a b) = length (filter ?Q offsets)"
    using assms by (simp add: count_torus)
  also have "\<dots> = length (filter ?Q (rev offsets))"
    by (simp only: rev_filter[symmetric] length_rev)
  also have "\<dots> = length (filter (\<lambda>(di, dj). (c - di) mod n = a \<and> (d - dj) mod n = b) offsets)"
    by (simp add: rev_offsets filter_map o_def case_prod_unfold)
  also have "\<dots> = length (filter (\<lambda>(di, dj). (a + di) mod n = c \<and> (b + dj) mod n = d) offsets)"
    using assms mod_shift_gen[of a n c] mod_shift_gen[of b n d]
    by (simp add: case_prod_unfold)
  also have "\<dots> = count_list (torus_nbrs n a b) (BOARD n c d)"
    using assms by (simp add: count_torus)
  finally show ?thesis by simp
qed

lemma flat_nbrs_sym:
  assumes "0 < n" "q < nat (n * n)" "k < nat (n * n)"
  shows "count_list (flat_nbrs n q) k = count_list (flat_nbrs n k) q"
  using count_torus_sym[of "int q div n" n "int q mod n" "int k div n" "int k mod n"]
    row_of_flat[OF assms(1,2)] row_of_flat[OF assms(1,3)]
  by (simp add: flat_nbrs_def)

lemma flat_nbrs_less:
  assumes "0 < n" "x \<in> set (flat_nbrs n k)"
  shows "x < nat (n * n)"
proof -
  obtain di dj where "x = BOARD n ((int k div n + di) mod n) ((int k mod n + dj) mod n)"
    using assms(2) by (auto simp: flat_nbrs_def torus_nbrs_def)
  then show ?thesis using assms(1) by (simp add: BOARD_less)
qed

lemma length_flat_nbrs [simp]: "length (flat_nbrs n k) = 8"
  by (simp add: flat_nbrs_def torus_nbrs_def offsets_def)

lemma cell_effect_flat:
  assumes "0 \<le> i" "i < n" "0 \<le> j" "j < n"
  shows "cell_effect e n inb n (i, j) k c = flat_effect e n inb (BOARD n i j) k c"
  using assms
  by (simp add: cell_effect_def flat_effect_def dies_def spawns_def nbrs_torus torus_flat Let_def)

lemma enc_INC:
  "enc_ok e \<Longrightarrow> NCOUNT e c < 8 \<Longrightarrow> NCOUNT e (INC e c) = NCOUNT e c + 1 \<and> ALIVE e (INC e c) = ALIVE e c"
  by (simp add: enc_ok_def)

lemma enc_DEC:
  "enc_ok e \<Longrightarrow> 0 < NCOUNT e c \<Longrightarrow> NCOUNT e c \<le> 8 \<Longrightarrow>
   NCOUNT e (DEC e c) = NCOUNT e c - 1 \<and> ALIVE e (DEC e c) = ALIVE e c"
  by (simp add: enc_ok_def)

lemma enc_SPAWN: "enc_ok e \<Longrightarrow> ALIVE e (SPAWN e c) = 1 \<and> NCOUNT e (SPAWN e c) = NCOUNT e c"
  by (simp add: enc_ok_def)

lemma enc_KILL: "enc_ok e \<Longrightarrow> ALIVE e (KILL e c) = 0 \<and> NCOUNT e (KILL e c) = NCOUNT e c"
  by (simp add: enc_ok_def)

lemma enc_ALIVE: "enc_ok e \<Longrightarrow> ALIVE e c = 0 \<or> ALIVE e c = 1"
  by (simp add: enc_ok_def)

lemma enc_zero: "enc_ok e \<Longrightarrow> ALIVE e 0 = 0 \<and> NCOUNT e 0 = 0"
  by (simp add: enc_ok_def)

lemma enc_TOKILL:
  "enc_ok e \<Longrightarrow> ALIVE e c \<noteq> 0 \<Longrightarrow> TOKILL e c \<longleftrightarrow> NCOUNT e c \<noteq> 2 \<and> NCOUNT e c \<noteq> 3"
  by (simp add: enc_ok_def)

lemma enc_TOSPAWN: "enc_ok e \<Longrightarrow> ALIVE e c = 0 \<Longrightarrow> TOSPAWN e c \<longleftrightarrow> NCOUNT e c = 3"
  by (simp add: enc_ok_def)

lemma funpow_INC:
  assumes "enc_ok e" "NCOUNT e c + m \<le> 8"
  shows "NCOUNT e ((INC e ^^ m) c) = NCOUNT e c + m \<and> ALIVE e ((INC e ^^ m) c) = ALIVE e c"
  using assms(2)
proof (induction m)
  case 0
  then show ?case by simp
next
  case (Suc m)
  then have ih: "NCOUNT e ((INC e ^^ m) c) = NCOUNT e c + m" "ALIVE e ((INC e ^^ m) c) = ALIVE e c"
    by simp_all
  have "NCOUNT e ((INC e ^^ m) c) < 8" using ih Suc.prems by simp
  from enc_INC[OF assms(1) this] ih show ?case by simp
qed

lemma funpow_DEC:
  assumes "enc_ok e" "m \<le> NCOUNT e c" "NCOUNT e c \<le> 8"
  shows "NCOUNT e ((DEC e ^^ m) c) = NCOUNT e c - m \<and> ALIVE e ((DEC e ^^ m) c) = ALIVE e c"
  using assms(2)
proof (induction m)
  case 0
  then show ?case by simp
next
  case (Suc m)
  then have ih: "NCOUNT e ((DEC e ^^ m) c) = NCOUNT e c - m" "ALIVE e ((DEC e ^^ m) c) = ALIVE e c"
    by simp_all
  have "0 < NCOUNT e ((DEC e ^^ m) c)" "NCOUNT e ((DEC e ^^ m) c) \<le> 8"
    using ih Suc.prems assms(3) by simp_all
  from enc_DEC[OF assms(1) this] ih show ?case by simp
qed

lemma not_dies_spawns: "dies e b q \<Longrightarrow> \<not> spawns e b q"
  by (simp add: dies_def spawns_def)

lemma local_run:
  assumes "enc_ok e"
  shows "down e n inb k qs \<le> NCOUNT e c \<Longrightarrow> NCOUNT e c + up e n inb k qs \<le> 8 \<Longrightarrow>
     NCOUNT e (foldl (\<lambda>c q. flat_effect e n inb q k c) c qs) + down e n inb k qs =
       NCOUNT e c + up e n inb k qs \<and>
     ALIVE e (foldl (\<lambda>c q. flat_effect e n inb q k c) c qs) =
       (if k \<in> set qs \<and> dies e inb k then 0
        else if k \<in> set qs \<and> spawns e inb k then 1 else ALIVE e c)"
proof (induction qs arbitrary: c)
  case Nil
  then show ?case by (simp add: down_def up_def)
next
  case (Cons q qs)
  let ?m = "count_list (flat_nbrs n q) k"
  let ?c' = "flat_effect e n inb q k c"
  have dq: "down e n inb k (q # qs) = (if dies e inb q then ?m else 0) + down e n inb k qs"
    and uq: "up e n inb k (q # qs) = (if spawns e inb q then ?m else 0) + up e n inb k qs"
    by (simp_all add: down_def up_def)
  consider (d) "dies e inb q" | (s) "\<not> dies e inb q" "spawns e inb q"
    | (n) "\<not> dies e inb q" "\<not> spawns e inb q" by blast
  then show ?case
  proof cases
    case d
    let ?c0 = "if k = q then KILL e c else c"
    have c0: "NCOUNT e ?c0 = NCOUNT e c" "ALIVE e ?c0 = (if k = q then 0 else ALIVE e c)"
      using enc_KILL[OF assms] by simp_all
    have ns: "\<not> spawns e inb q" using d by (rule not_dies_spawns)
    have m: "?m \<le> NCOUNT e ?c0" "NCOUNT e ?c0 \<le> 8"
      using Cons.prems d c0 by (simp_all add: dq)
    have c': "?c' = (DEC e ^^ ?m) ?c0" using d by (simp add: flat_effect_def)
    have f: "NCOUNT e ?c' = NCOUNT e c - ?m" "ALIVE e ?c' = (if k = q then 0 else ALIVE e c)"
      using funpow_DEC[OF assms m] c0 c' by simp_all
    have "down e n inb k qs \<le> NCOUNT e ?c'" "NCOUNT e ?c' + up e n inb k qs \<le> 8"
      using Cons.prems d ns f by (simp_all add: dq uq)
    from Cons.IH[OF this] show ?thesis
      using d ns f m c0 by (auto simp: dq uq dest: not_dies_spawns)
  next
    case s
    let ?c0 = "if k = q then SPAWN e c else c"
    have c0: "NCOUNT e ?c0 = NCOUNT e c" "ALIVE e ?c0 = (if k = q then 1 else ALIVE e c)"
      using enc_SPAWN[OF assms] by simp_all
    have m: "NCOUNT e ?c0 + ?m \<le> 8"
      using Cons.prems s c0 by (simp add: uq)
    have c': "?c' = (INC e ^^ ?m) ?c0" using s by (simp add: flat_effect_def)
    have f: "NCOUNT e ?c' = NCOUNT e c + ?m" "ALIVE e ?c' = (if k = q then 1 else ALIVE e c)"
      using funpow_INC[OF assms m] c0 c' by simp_all
    have "down e n inb k qs \<le> NCOUNT e ?c'" "NCOUNT e ?c' + up e n inb k qs \<le> 8"
      using Cons.prems s f by (simp_all add: dq uq)
    from Cons.IH[OF this] show ?thesis
      using s f by (auto simp: dq uq)
  next
    case n
    have c': "?c' = c" using n by (simp add: flat_effect_def)
    have "down e n inb k qs \<le> NCOUNT e ?c'" "NCOUNT e ?c' + up e n inb k qs \<le> 8"
      using Cons.prems n c' by (simp_all add: dq uq)
    from Cons.IH[OF this] show ?thesis
      using n c' by (auto simp: dq uq)
  qed
qed

lemma sum_list_indicator:
  fixes g :: "'a \<Rightarrow> nat"
  assumes "distinct xs" "y \<in> set xs"
  shows "(\<Sum>x\<leftarrow>xs. if y = x then g x else 0) = g y"
  using assms by (induction xs) (auto cong: map_cong)

lemma sum_list_count:
  fixes g :: "'a \<Rightarrow> nat"
  assumes "distinct xs" "set ys \<subseteq> set xs"
  shows "(\<Sum>x\<leftarrow>xs. g x * count_list ys x) = (\<Sum>y\<leftarrow>ys. g y)"
  using assms(2)
proof (induction ys)
  case Nil
  then show ?case by simp
next
  case (Cons y ys)
  have "(\<Sum>x\<leftarrow>xs. g x * count_list (y # ys) x) =
        (\<Sum>x\<leftarrow>xs. g x * count_list ys x + (if y = x then g x else 0))"
    by (intro arg_cong[where f = sum_list] map_cong) auto
  also have "\<dots> = (\<Sum>x\<leftarrow>xs. g x * count_list ys x) + (\<Sum>x\<leftarrow>xs. if y = x then g x else 0)"
    by (simp add: sum_list_addf)
  also have "\<dots> = (\<Sum>y\<leftarrow>ys. g y) + g y"
    using Cons assms(1) by (simp add: sum_list_indicator)
  finally show ?case by simp
qed

lemma sum_list_if_length: "(\<Sum>q\<leftarrow>xs. if P q then 1 else 0) = length (filter P xs)"
  by (induction xs) simp_all

lemma sum_over_nbrs:
  assumes "0 < n" "k < nat (n * n)"
  shows "(\<Sum>q\<leftarrow>[0..<nat (n * n)]. (if P q then count_list (flat_nbrs n q) k else 0)) =
         length (filter P (flat_nbrs n k))"
proof -
  have "(\<Sum>q\<leftarrow>[0..<nat (n * n)]. (if P q then count_list (flat_nbrs n q) k else 0)) =
        (\<Sum>q\<leftarrow>[0..<nat (n * n)]. (if P q then 1 else 0) * count_list (flat_nbrs n k) q)"
    using assms by (intro arg_cong[where f = sum_list] map_cong) (auto simp: flat_nbrs_sym)
  also have "\<dots> = (\<Sum>q\<leftarrow>flat_nbrs n k. if P q then 1 else 0)"
    using assms flat_nbrs_less[of n _ k] by (intro sum_list_count) auto
  also have "\<dots> = length (filter P (flat_nbrs n k))"
    by (rule sum_list_if_length)
  finally show ?thesis .
qed

lemma rows_loop_ok:
  "(\<forall>i\<in>set rows. 0 \<le> i \<and> i < nrows) \<Longrightarrow> rows_loop f nrows rows b = Inr (foldl f b rows)"
  by (induction rows arbitrary: b) simp_all

lemma rows_loop_bad:
  "\<not> (\<forall>i\<in>set rows. 0 \<le> i \<and> i < nrows) \<Longrightarrow> rows_loop f nrows rows b = Inl OutOfBoard"
  by (induction rows arbitrary: b) auto

lemma cols_loop_ok:
  "(\<forall>j\<in>set js. \<forall>b. f j b = Inr (g b j)) \<Longrightarrow> cols_loop f js b = Inr (foldl g b js)"
  by (induction js arbitrary: b) simp_all

lemma foldl_concat_eq: "foldl f b (concat xss) = foldl (foldl f) b xss"
  by (induction xss arbitrary: b) simp_all

lemma set_slice_rows:
  assumes "2 \<le> s"
  shows "set (slice_rows a (a + s)) = {a..a + s - 1}"
  using assms by (auto simp: slice_rows_def)

lemma slice_in_board:
  assumes "0 < T" "0 \<le> nrows" "2 \<le> nrows div T" "t \<in> set [0..T - 1]"
    and "i \<in> set (slice_rows (t * (nrows div T)) (t * (nrows div T) + nrows div T))"
  shows "0 \<le> i \<and> i < nrows"
proof -
  let ?s = "nrows div T"
  have i: "t * ?s \<le> i" "i \<le> t * ?s + ?s - 1"
    using assms(5) set_slice_rows[OF assms(3)] by auto
  have t: "0 \<le> t" "t \<le> T - 1" using assms(4) by auto
  have "0 \<le> t * ?s" using t assms(3) by simp
  moreover have "t * ?s + ?s \<le> T * ?s"
  proof -
    have "(t + 1) * ?s \<le> T * ?s" using t assms(3) by (intro mult_right_mono) auto
    then show ?thesis by (simp add: algebra_simps)
  qed
  moreover have "T * ?s \<le> nrows"
    using assms(1,2) by (metis mult_div_mod_eq pos_mod_sign le_add_same_cancel1)
  ultimately show ?thesis using i by linarith
qed

lemma worker_sweep_ok:
  assumes "0 < T" "0 \<le> nrows" "2 \<le> nrows div T" "t \<in> set [0..T - 1]"
  shows "worker_sweep e T lda inb nrows ncols t out =
     Inr (sweep e lda inb nrows
            (concat (map (\<lambda>j. map (\<lambda>i. (i, j))
               (slice_rows (t * (nrows div T)) (t * (nrows div T) + nrows div T)))
             [0..ncols - 1])) out)"
proof -
  let ?rows = "slice_rows (t * (nrows div T)) (t * (nrows div T) + nrows div T)"
  have rows: "\<forall>i\<in>set ?rows. 0 \<le> i \<and> i < nrows"
    using slice_in_board[OF assms] by blast
  have col: "worker_column e lda inb nrows (t * (nrows div T)) (t * (nrows div T) + nrows div T) j b =
      Inr (foldl (\<lambda>b i. do_cell e lda b inb i j nrows) b ?rows)" for j b
    unfolding worker_column_rows using rows by (rule rows_loop_ok)
  have "worker_sweep e T lda inb nrows ncols t out =
      Inr (foldl (\<lambda>b j. foldl (\<lambda>b i. do_cell e lda b inb i j nrows) b ?rows) out [0..ncols - 1])"
    unfolding worker_sweep_def Let_def
    by (rule cols_loop_ok) (simp add: col)
  also have "foldl (\<lambda>b j. foldl (\<lambda>b i. do_cell e lda b inb i j nrows) b ?rows) out [0..ncols - 1] =
      sweep e lda inb nrows (concat (map (\<lambda>j. map (\<lambda>i. (i, j)) ?rows) [0..ncols - 1])) out"
    by (simp add: sweep_def foldl_concat_eq foldl_map)
  finally show ?thesis .
qed

lemma phase1_ok:
  assumes "0 < T" "0 \<le> nrows" "2 \<le> nrows div T"
  shows "cols_loop (worker_sweep e T lda inb nrows ncols) [0..T - 1] out =
         Inr (sweep e lda inb nrows (visits T nrows ncols) out)"
proof -
  let ?vt = "\<lambda>t. concat (map (\<lambda>j. map (\<lambda>i. (i, j))
               (slice_rows (t * (nrows div T)) (t * (nrows div T) + nrows div T)))
             [0..ncols - 1])"
  have "cols_loop (worker_sweep e T lda inb nrows ncols) [0..T - 1] out =
        Inr (foldl (\<lambda>b t. sweep e lda inb nrows (?vt t) b) out [0..T - 1])"
    by (rule cols_loop_ok) (use worker_sweep_ok[OF assms] in blast)
  also have "foldl (\<lambda>b t. sweep e lda inb nrows (?vt t) b) out [0..T - 1] =
        sweep e lda inb nrows (visits T nrows ncols) out"
    by (simp add: sweep_def visits_def foldl_concat_eq foldl_map)
  finally show ?thesis .
qed

lemma length_sweep [simp]: "length (sweep e lda inb sz vs out) = length out"
  unfolding sweep_def by (induction vs arbitrary: out) simp_all

lemma sweep_nth:
  "k < length out \<Longrightarrow>
   sweep e lda inb sz vs out ! k = foldl (\<lambda>c v. cell_effect e lda inb sz v k c) (out ! k) vs"
  unfolding sweep_def
  by (induction vs arbitrary: out) (simp_all add: do_cell_nth)

lemma sweep_nth_flat:
  assumes "k < length out" "\<forall>v\<in>set vs. 0 \<le> fst v \<and> fst v < n \<and> 0 \<le> snd v \<and> snd v < n"
  shows "sweep e n inb n vs out ! k =
         foldl (\<lambda>c q. flat_effect e n inb q k c) (out ! k) (map (\<lambda>v. BOARD n (fst v) (snd v)) vs)"
proof -
  have "foldl (\<lambda>c v. cell_effect e n inb n v k c) c vs =
        foldl (\<lambda>c q. flat_effect e n inb q k c) c (map (\<lambda>v. BOARD n (fst v) (snd v)) vs)" for c
    using assms(2)
  proof (induction vs arbitrary: c)
    case Nil
    then show ?case by simp
  next
    case (Cons v vs)
    have "cell_effect e n inb n v k c = flat_effect e n inb (BOARD n (fst v) (snd v)) k c"
      using Cons.prems cell_effect_flat[of "fst v" n "snd v" e inb k c] by simp
    then show ?case using Cons by simp
  qed
  then show ?thesis using assms(1) by (simp add: sweep_nth)
qed

lemma sum_list_concat_nat:
  fixes xss :: "nat list list"
  shows "sum_list (concat xss) = (\<Sum>xs\<leftarrow>xss. sum_list xs)"
  by (induction xss) simp_all

lemma sum_list_upto_nat:
  fixes F :: "int \<Rightarrow> nat"
  assumes "0 \<le> a"
  shows "(\<Sum>i\<leftarrow>[a..b]. F i) = (\<Sum>i = nat a..<nat (b + 1). F (int i))"
proof -
  have "(\<Sum>i\<leftarrow>[a..b]. F i) = sum F {a..b}"
    by (simp add: sum_list_distinct_conv_sum_set)
  also have "\<dots> = (\<Sum>i = nat a..<nat (b + 1). F (int i))"
    using assms by (intro sum.reindex_bij_witness[where i = int and j = nat]) auto
  finally show ?thesis .
qed

lemma slice_sum:
  fixes F :: "int \<Rightarrow> nat"
  assumes "4 \<le> s \<or> s = 2"
  shows "(\<Sum>i\<leftarrow>slice_rows a (a + s). F i) = slice_weight s * (\<Sum>i\<leftarrow>[a..a + s - 1]. F i)"
proof (cases "4 \<le> s")
  case True
  then show ?thesis by (simp add: slice_rows_wide slice_weight_def)
next
  case False
  then have s: "s = 2" using assms by simp
  have "slice_rows a (a + 2) = [a..a + 2 - 1] @ [a..a + 2 - 1]"
    unfolding slice_rows_def by simp
  then show ?thesis unfolding s slice_weight_def by simp
qed

lemma grid_sum:
  fixes g :: "nat \<Rightarrow> nat"
  shows "(\<Sum>t<T. \<Sum>j<n. \<Sum>i = t * s..<t * s + s. g (i * n + j)) = (\<Sum>q<T * s * n. g q)"
proof -
  have row: "(\<Sum>j<n. g (i * n + j)) = sum g {i * n..<i * n + n}" for i
    using sum.shift_bounds_nat_ivl[of g 0 "i * n" n]
    by (simp add: atLeast0LessThan add.commute)
  have "(\<Sum>t<T. \<Sum>j<n. \<Sum>i = t * s..<t * s + s. g (i * n + j)) =
        (\<Sum>t<T. \<Sum>i = t * s..<t * s + s. \<Sum>j<n. g (i * n + j))"
    by (intro sum.cong refl sum.swap)
  also have "\<dots> = (\<Sum>t<T. \<Sum>i = t * s..<t * s + s. sum g {i * n..<i * n + n})"
    by (simp only: row)
  also have "\<dots> = (\<Sum>i<T * s. sum g {i * n..<i * n + n})"
    by (rule sum.nat_group)
  also have "\<dots> = (\<Sum>q<T * s * n. g q)"
    by (rule sum.nat_group)
  finally show ?thesis .
qed

lemma fvisits_sum:
  fixes g :: "nat \<Rightarrow> nat"
  assumes "0 < T" "T * (n div T) = n" "4 \<le> n div T \<or> n div T = 2"
  shows "sum_list (map g (fvisits T n)) = slice_weight (n div T) * sum_list (map g [0..<nat (n * n)])"
proof -
  define s where "s = n div T"
  have s: "0 \<le> s" using assms(3) s_def by auto
  have n: "0 \<le> n" using assms(1,2) s s_def by (metis mult_nonneg_nonneg less_imp_le)
  obtain T' where T': "T = int T'" using assms(1) by (metis nat_0_le less_imp_le)
  obtain s' where s': "s = int s'" using s by (metis nat_0_le)
  obtain n' where n': "n = int n'" using n by (metis nat_0_le)
  have "T * s = n" using assms(2) by (simp add: s_def)
  then have "int (T' * s') = int n'" by (simp add: T' s' n')
  then have Tsn: "T' * s' = n'" by (simp only: of_nat_eq_iff)
  let ?w = "slice_weight s"
  have "sum_list (map g (fvisits T n)) =
        (\<Sum>t\<leftarrow>[0..T - 1]. \<Sum>j\<leftarrow>[0..n - 1]. \<Sum>i\<leftarrow>slice_rows (t * s) (t * s + s). g (BOARD n i j))"
    by (simp add: fvisits_def visits_def s_def map_concat sum_list_concat_nat o_def)
  also have "\<dots> = (\<Sum>t\<leftarrow>[0..T - 1]. \<Sum>j\<leftarrow>[0..n - 1]. ?w * (\<Sum>i\<leftarrow>[t * s..t * s + s - 1]. g (BOARD n i j)))"
    using assms(3) by (simp only: slice_sum s_def)
  also have "\<dots> = (\<Sum>t<T'. \<Sum>j<n'. ?w * (\<Sum>i = t * s'..<t * s' + s'. g (i * n' + j)))"
  proof -
    have inner: "(\<Sum>i\<leftarrow>[int t * s..int t * s + s - 1]. g (BOARD n i j)) =
          (\<Sum>i = t * s'..<t * s' + s'. g (i * n' + int_j))" 
      if "j = int int_j" for t j int_j
    proof -
      have "(\<Sum>i\<leftarrow>[int t * s..int t * s + s - 1]. g (BOARD n i j)) =
            (\<Sum>i = nat (int t * s)..<nat (int t * s + s - 1 + 1). g (BOARD n (int i) j))"
        using s by (intro sum_list_upto_nat) simp
      also have "nat (int t * s) = t * s'" unfolding s' by (simp add: nat_mult_distrib)
      also have "nat (int t * s + s - 1 + 1) = t * s' + s'"
        unfolding s' by (simp add: nat_add_distrib nat_mult_distrib)
      also have "(\<lambda>i. g (BOARD n (int i) j)) = (\<lambda>i. g (i * n' + int_j))"
        unfolding n' that BOARD_def by (simp add: nat_add_distrib nat_mult_distrib)
      finally show ?thesis .
    qed
    have mid: "(\<Sum>j\<leftarrow>[0..n - 1]. ?w * (\<Sum>i\<leftarrow>[int t * s..int t * s + s - 1]. g (BOARD n i j))) =
          (\<Sum>j<n'. ?w * (\<Sum>i = t * s'..<t * s' + s'. g (i * n' + j)))" for t
    proof -
      have "(\<Sum>j\<leftarrow>[0..n - 1]. ?w * (\<Sum>i\<leftarrow>[int t * s..int t * s + s - 1]. g (BOARD n i j))) =
            (\<Sum>j = nat 0..<nat (n - 1 + 1). ?w * (\<Sum>i\<leftarrow>[int t * s..int t * s + s - 1]. g (BOARD n i (int j))))"
        by (intro sum_list_upto_nat) simp
      also have "\<dots> = (\<Sum>j<n'. ?w * (\<Sum>i = t * s'..<t * s' + s'. g (i * n' + j)))"
        using inner by (simp add: n' atLeast0LessThan)
      finally show ?thesis .
    qed
    have "(\<Sum>t\<leftarrow>[0..T - 1]. \<Sum>j\<leftarrow>[0..n - 1]. ?w * (\<Sum>i\<leftarrow>[t * s..t * s + s - 1]. g (BOARD n i j))) =
          (\<Sum>t = nat 0..<nat (T - 1 + 1). \<Sum>j\<leftarrow>[0..n - 1]. ?w * (\<Sum>i\<leftarrow>[int t * s..int t * s + s - 1]. g (BOARD n i j)))"
      by (intro sum_list_upto_nat) simp
    also have "\<dots> = (\<Sum>t<T'. \<Sum>j<n'. ?w * (\<Sum>i = t * s'..<t * s' + s'. g (i * n' + j)))"
      using mid by (simp add: T' atLeast0LessThan)
    finally show ?thesis .
  qed
  also have "\<dots> = ?w * (\<Sum>t<T'. \<Sum>j<n'. \<Sum>i = t * s'..<t * s' + s'. g (i * n' + j))"
    by (simp add: sum_distrib_left)
  also have "\<dots> = ?w * (\<Sum>q<T' * s' * n'. g q)"
    by (simp only: grid_sum)
  also have "(\<Sum>q<T' * s' * n'. g q) = sum_list (map g [0..<nat (n * n)])"
    unfolding Tsn n' by (simp add: interv_sum_list_conv_sum_set_nat atLeast0LessThan nat_mult_distrib)
  finally show ?thesis by (simp add: s_def)
qed

lemma fvisits_covers:
  assumes "0 < T" "T * (n div T) = n" "4 \<le> n div T \<or> n div T = 2"
  shows "covers (slice_weight (n div T)) (nat (n * n)) (fvisits T n)"
  unfolding covers_def using fvisits_sum[OF assms] by blast

lemma covers_down:
  assumes "covers w (nat (n * n)) qs" "0 < n" "k < nat (n * n)"
  shows "down e n inb k qs = w * length (filter (dies e inb) (flat_nbrs n k))"
  using assms(1) sum_over_nbrs[OF assms(2,3), of "dies e inb"]
  by (simp add: covers_def down_def)

lemma covers_up:
  assumes "covers w (nat (n * n)) qs" "0 < n" "k < nat (n * n)"
  shows "up e n inb k qs = w * length (filter (spawns e inb) (flat_nbrs n k))"
  using assms(1) sum_over_nbrs[OF assms(2,3), of "spawns e inb"]
  by (simp add: covers_def up_def)

lemma covers_mem:
  assumes "covers w N qs" "0 < w" "k < N"
  shows "k \<in> set qs"
proof (rule ccontr)
  assume "k \<notin> set qs"
  then have "(\<Sum>q\<leftarrow>qs. if k = q then 1 else 0) = (0::nat)"
    by (induction qs) auto
  moreover have "(\<Sum>q\<leftarrow>[0..<N]. if k = q then 1 else 0) = (1::nat)"
    using assms(3) sum_list_indicator[of "[0..<N]" k "\<lambda>_. 1"] by simp
  ultimately show False
    using assms(1,2) unfolding covers_def
    by (metis mult.right_neutral less_numeral_extra(3))
qed

lemma visits_in_board:
  assumes "0 < T" "0 \<le> nrows" "2 \<le> nrows div T" "v \<in> set (visits T nrows ncols)"
  shows "0 \<le> fst v \<and> fst v < nrows \<and> 0 \<le> snd v \<and> snd v < ncols"
proof -
  obtain t j where t: "t \<in> set [0..T - 1]" and j: "j \<in> set [0..ncols - 1]"
    and i: "fst v \<in> set (slice_rows (t * (nrows div T)) (t * (nrows div T) + nrows div T))"
    and "snd v = j"
    using assms(4) by (auto simp: visits_def)
  then show ?thesis using slice_in_board[OF assms(1-3) t i] by auto
qed

lemma sweep_abs:
  assumes e: "enc_ok e" and n: "0 < n" and len: "length out = nat (n * n)" and k: "k < nat (n * n)"
    and vs: "\<forall>v\<in>set vs. 0 \<le> fst v \<and> fst v < n \<and> 0 \<le> snd v \<and> snd v < n"
    and cov: "covers w (nat (n * n)) (map (\<lambda>v. BOARD n (fst v) (snd v)) vs)" and w: "0 < w"
    and lo: "w * length (filter (dies e inb) (flat_nbrs n k)) \<le> NCOUNT e (out ! k)"
    and hi: "NCOUNT e (out ! k) + w * length (filter (spawns e inb) (flat_nbrs n k)) \<le> 8"
  shows "NCOUNT e (sweep e n inb n vs out ! k) + w * length (filter (dies e inb) (flat_nbrs n k)) =
           NCOUNT e (out ! k) + w * length (filter (spawns e inb) (flat_nbrs n k)) \<and>
         ALIVE e (sweep e n inb n vs out ! k) =
           (if dies e inb k then 0 else if spawns e inb k then 1 else ALIVE e (out ! k))"
proof -
  let ?qs = "map (\<lambda>v. BOARD n (fst v) (snd v)) vs"
  have d: "down e n inb k ?qs = w * length (filter (dies e inb) (flat_nbrs n k))"
    using cov n k by (rule covers_down)
  have u: "up e n inb k ?qs = w * length (filter (spawns e inb) (flat_nbrs n k))"
    using cov n k by (rule covers_up)
  have m: "k \<in> set ?qs" using cov w k by (rule covers_mem)
  have nth: "sweep e n inb n vs out ! k = foldl (\<lambda>c q. flat_effect e n inb q k c) (out ! k) ?qs"
    using k len vs by (intro sweep_nth_flat) simp_all
  have "down e n inb k ?qs \<le> NCOUNT e (out ! k)" "NCOUNT e (out ! k) + up e n inb k ?qs \<le> 8"
    using lo hi by (simp_all only: d u)
  from local_run[OF e this] show ?thesis
    unfolding nth using m by (simp only: d u if_True simp_thms)
qed

lemma filter_length_mono:
  "(\<And>x. x \<in> set xs \<Longrightarrow> P x \<Longrightarrow> Q x) \<Longrightarrow> length (filter P xs) \<le> length (filter Q xs)"
  by (induction xs) auto

lemma filter_length_disjoint:
  "(\<And>x. x \<in> set xs \<Longrightarrow> P x \<Longrightarrow> \<not> Q x) \<Longrightarrow>
   length (filter P xs) + length (filter Q xs) \<le> length xs"
  by (induction xs) auto

lemma filter_length_update:
  assumes "\<And>x. x \<in> set xs \<Longrightarrow> D x \<Longrightarrow> A x" "\<And>x. x \<in> set xs \<Longrightarrow> S x \<Longrightarrow> \<not> A x"
  shows "length (filter (\<lambda>x. if D x then False else if S x then True else A x) xs) +
           length (filter D xs) = length (filter A xs) + length (filter S xs)"
  using assms by (induction xs) auto

lemma dies_alive: "dies e b q \<Longrightarrow> ALIVE e (b ! q) \<noteq> 0"
  by (simp add: dies_def)

lemma spawns_dead: "spawns e b q \<Longrightarrow> \<not> ALIVE e (b ! q) \<noteq> 0"
  by (simp add: spawns_def)

lemma sweep_good:
  assumes e: "enc_ok e" and n: "0 < n" and ok: "counts_ok e n b"
    and vs: "\<forall>v\<in>set vs. 0 \<le> fst v \<and> fst v < n \<and> 0 \<le> snd v \<and> snd v < n"
    and cov: "covers 1 (nat (n * n)) (map (\<lambda>v. BOARD n (fst v) (snd v)) vs)"
  shows "counts_ok e n (sweep e n b n vs b) \<and>
         (\<forall>k<nat (n * n). ALIVE e (sweep e n b n vs b ! k) =
            (if dies e b k then 0 else if spawns e b k then 1 else ALIVE e (b ! k)))"
proof -
  let ?b' = "sweep e n b n vs b"
  let ?A = "\<lambda>q. ALIVE e (b ! q) \<noteq> 0"
  let ?A' = "\<lambda>q. if dies e b q then False else if spawns e b q then True else ?A q"
  have len: "length b = nat (n * n)" using ok by (simp add: counts_ok_def)
  have cnt: "NCOUNT e (b ! k) = length (filter ?A (flat_nbrs n k))" if "k < nat (n * n)" for k
    using ok that len by (simp add: counts_ok_def)
  have step: "NCOUNT e (?b' ! k) + length (filter (dies e b) (flat_nbrs n k)) =
           NCOUNT e (b ! k) + length (filter (spawns e b) (flat_nbrs n k)) \<and>
         ALIVE e (?b' ! k) = (if dies e b k then 0 else if spawns e b k then 1 else ALIVE e (b ! k))"
    if k: "k < nat (n * n)" for k
  proof -
    have lo: "1 * length (filter (dies e b) (flat_nbrs n k)) \<le> NCOUNT e (b ! k)"
      unfolding cnt[OF k] using dies_alive by (simp add: filter_length_mono)
    have "length (filter ?A (flat_nbrs n k)) + length (filter (spawns e b) (flat_nbrs n k))
          \<le> length (flat_nbrs n k)"
      using spawns_dead[of e b] by (intro filter_length_disjoint) blast
    then have hi: "NCOUNT e (b ! k) + 1 * length (filter (spawns e b) (flat_nbrs n k)) \<le> 8"
      unfolding cnt[OF k] by simp
    from sweep_abs[OF e n len k vs cov _ lo hi] show ?thesis by simp
  qed
  have alive': "(ALIVE e (?b' ! q) \<noteq> 0) = ?A' q" if "q < nat (n * n)" for q
    using step[OF that] by (simp add: dies_def spawns_def)
  have "NCOUNT e (?b' ! k) = length (filter (\<lambda>q. ALIVE e (?b' ! q) \<noteq> 0) (flat_nbrs n k))"
    if k: "k < nat (n * n)" for k
  proof -
    have "filter (\<lambda>q. ALIVE e (?b' ! q) \<noteq> 0) (flat_nbrs n k) = filter ?A' (flat_nbrs n k)"
      using flat_nbrs_less[OF n] alive' by (intro filter_cong refl) blast
    moreover have "length (filter ?A' (flat_nbrs n k)) + length (filter (dies e b) (flat_nbrs n k)) =
        length (filter ?A (flat_nbrs n k)) + length (filter (spawns e b) (flat_nbrs n k))"
      using dies_alive[of e b] spawns_dead[of e b] by (intro filter_length_update) blast+
    ultimately show ?thesis using step[OF k] cnt[OF k] by simp
  qed
  then have "counts_ok e n ?b'" using len by (simp add: counts_ok_def)
  then show ?thesis using step by blast
qed

lemma naive_generation_abs:
  assumes e: "enc_ok e" and n: "0 < n" and ok: "counts_ok e n b" and len: "length b' = nat (n * n)"
    and flags: "\<forall>k<nat (n * n). ALIVE e (b' ! k) =
            (if dies e b k then 0 else if spawns e b k then 1 else ALIVE e (b ! k))"
  shows "map (ALIVE e) b' = naive_generation n (map (ALIVE e) b)"
proof (rule nth_equalityI)
  show "length (map (ALIVE e) b') = length (naive_generation n (map (ALIVE e) b))"
    using len by (simp add: naive_generation_def)
next
  fix k assume "k < length (map (ALIVE e) b')"
  then have k: "k < nat (n * n)" using len by simp
  let ?p = "map (ALIVE e) b"
  have lb: "length b = nat (n * n)" using ok by (simp add: counts_ok_def)
  note r = row_of_flat[OF n k]
  have idx: "nat (int k div n * n + int k mod n) = k"
    using r(5) by (simp add: BOARD_def)
  have "filter (\<lambda>q. ?p ! q = 1) (flat_nbrs n k) = filter (\<lambda>q. ALIVE e (b ! q) \<noteq> 0) (flat_nbrs n k)"
  proof (intro filter_cong refl)
    fix q assume "q \<in> set (flat_nbrs n k)"
    then have "q < nat (n * n)" using flat_nbrs_less[OF n] by blast
    then show "(?p ! q = 1) = (ALIVE e (b ! q) \<noteq> 0)"
      using enc_ALIVE[OF e, of "b ! q"] lb by auto
  qed
  then have cnt: "naive_count n ?p (int k div n) (int k mod n) = NCOUNT e (b ! k)"
    using ok k lb by (simp add: naive_count_torus flat_nbrs_def[symmetric] counts_ok_def)
  have pk: "?p ! k = ALIVE e (b ! k)" using k lb by simp
  have "naive_generation n ?p ! k = naive_cell n ?p (int k div n) (int k mod n)"
    using k by (simp add: naive_generation_def)
  also have "\<dots> = (if dies e b k then 0 else if spawns e b k then 1 else ALIVE e (b ! k))"
    using enc_ALIVE[OF e, of "b ! k"] enc_TOKILL[OF e, of "b ! k"] enc_TOSPAWN[OF e, of "b ! k"]
    by (auto simp: naive_cell_def idx cnt pk dies_def spawns_def Let_def)
  finally show "map (ALIVE e) b' ! k = naive_generation n ?p ! k"
    using flags k len by simp
qed

lemma copy_prefix:
  fixes inb out :: board
  assumes "length inb = N" "length out = N" "(m + 1) * w \<le> N"
  shows "take (m * w) (take (m * w) out @ drop (m * w) inb) @
           take w (drop (m * w) out) @ drop (m * w + w) (take (m * w) out @ drop (m * w) inb) =
         take ((m + 1) * w) out @ drop ((m + 1) * w) inb"
proof -
  have le: "m * w \<le> N" "m * w + w \<le> N" using assms(3) by (simp_all add: algebra_simps)
  have mw: "(m + 1) * w = m * w + w" by simp
  have "take (m * w + w) out = take (m * w) out @ take w (drop (m * w) out)"
    by (rule take_add)
  then show ?thesis unfolding mw using assms(1,2) le by (simp add: add.commute)
qed

lemma copy_all:
  assumes T: "0 < T" and Ts: "T * (n div T) = n" and s: "0 \<le> n div T"
    and li: "length inb = nat (n * n)" and lo: "length out = nat (n * n)"
  shows "foldl (\<lambda>inb t. copy_band T n n out t inb) inb [0..T - 1] = out"
proof -
  define s' where "s' = nat (n div T)"
  have n: "0 \<le> n" using T Ts s by (metis mult_nonneg_nonneg less_imp_le)
  define n' where "n' = nat n"
  define w where "w = s' * n'"
  have N: "nat (n * n) = nat T * w"
    using Ts n s T unfolding w_def s'_def n'_def
    by (metis nat_mult_distrib less_imp_le mult.assoc)
  have cb: "copy_band T n n out (int m) x =
        take (m * w) x @ take w (drop (m * w) out) @ drop (m * w + w) x" for m x
    using s n unfolding copy_band_def Let_def w_def s'_def n'_def
    by (simp add: nat_mult_distrib nat_add_distrib mult.assoc)
  have "m \<le> nat T \<Longrightarrow> foldl (\<lambda>inb t. copy_band T n n out t inb) inb [0..int m - 1] =
        take (m * w) out @ drop (m * w) inb" for m
  proof (induction m)
    case 0
    then show ?case by simp
  next
    case (Suc m)
    have "[0..int (Suc m) - 1] = [0..int m - 1] @ [int m]"
      using upto_rec2[of 0 "int m"] by simp
    moreover have "(m + 1) * w \<le> nat (n * n)"
      using Suc.prems unfolding N by (intro mult_right_mono) auto
    ultimately show ?case
      using Suc copy_prefix[OF li lo, of m w] by (simp add: cb)
  qed
  from this[of "nat T"] show ?thesis using T lo li N by simp
qed

lemma generation_good:
  assumes e: "enc_ok e" and T: "0 < T" and Ts: "T * (n div T) = n" and s: "4 \<le> n div T"
    and ok: "counts_ok e n b"
  shows "\<exists>b'. generation e T n n n (b, b) = Inr (b', b') \<and> counts_ok e n b' \<and>
              map (ALIVE e) b' = naive_generation n (map (ALIVE e) b)"
proof -
  have n: "0 < n" using T Ts s by (metis mult_pos_pos less_le_trans zero_less_numeral)
  let ?b' = "sweep e n b n (visits T n n) b"
  have lb: "length b = nat (n * n)" using ok by (simp add: counts_ok_def)
  have p1: "cols_loop (worker_sweep e T n b n n) [0..T - 1] b = Inr ?b'"
    using T n s by (intro phase1_ok) auto
  have vs: "\<forall>v\<in>set (visits T n n). 0 \<le> fst v \<and> fst v < n \<and> 0 \<le> snd v \<and> snd v < n"
    using visits_in_board[of T n _ n] T n s by auto
  have cov: "covers 1 (nat (n * n)) (map (\<lambda>v. BOARD n (fst v) (snd v)) (visits T n n))"
    using fvisits_covers[OF T Ts] s by (simp add: fvisits_def slice_weight_def)
  note g = sweep_good[OF e n ok vs cov]
  have cp: "foldl (\<lambda>inb t. copy_band T n n ?b' t inb) b [0..T - 1] = ?b'"
    using s lb by (intro copy_all[OF T Ts]) simp_all
  have "generation e T n n n (b, b) = Inr (?b', ?b')"
    by (simp add: generation_def p1 cp)
  moreover have "map (ALIVE e) ?b' = naive_generation n (map (ALIVE e) b)"
    using g lb by (intro naive_generation_abs[OF e n ok]) simp_all
  ultimately show ?thesis using g by blast
qed

lemma generations_good:
  assumes e: "enc_ok e" and T: "0 < T" and Ts: "T * (n div T) = n" and s: "4 \<le> n div T"
  shows "counts_ok e n b \<Longrightarrow>
         \<exists>b'. generations e T n n n g (b, b) = Inr (b', b') \<and> counts_ok e n b' \<and>
              map (ALIVE e) b' = (naive_generation n ^^ g) (map (ALIVE e) b)"
proof (induction g arbitrary: b)
  case 0
  then show ?case by simp
next
  case (Suc g)
  obtain b1 where b1: "generation e T n n n (b, b) = Inr (b1, b1)" "counts_ok e n b1"
      "map (ALIVE e) b1 = naive_generation n (map (ALIVE e) b)"
    using generation_good[OF e T Ts s Suc.prems] by blast
  obtain b' where "generations e T n n n g (b1, b1) = Inr (b', b')" "counts_ok e n b'"
      "map (ALIVE e) b' = (naive_generation n ^^ g) (map (ALIVE e) b1)"
    using Suc.IH[OF b1(2)] by blast
  then show ?case using b1 by (simp add: funpow_swap1)
qed

lemma foldl_update_map:
  "m \<le> length b \<Longrightarrow> foldl (\<lambda>b i. b[i := f (b ! i)]) b [0..<m] = map f (take m b) @ drop m b"
proof (induction m)
  case 0
  then show ?case by simp
next
  case (Suc m)
  then have m: "m < length b" by simp
  let ?xs = "map f (take m b)"
  have lx: "length ?xs = m" using m by simp
  have "foldl (\<lambda>b i. b[i := f (b ! i)]) b [0..<Suc m] =
        (?xs @ drop m b)[m := f ((?xs @ drop m b) ! m)]"
    using Suc by simp
  also have "(?xs @ drop m b) ! m = b ! m"
    using m lx by (simp add: nth_append)
  also have "(?xs @ drop m b)[m := f (b ! m)] = ?xs @ (drop m b)[0 := f (b ! m)]"
    using lx by (simp add: list_update_append)
  also have "drop m b = b ! m # drop (Suc m) b"
    using m by (simp add: Cons_nth_drop_Suc)
  finally show ?case using m by (simp add: take_Suc_conv_app_nth)
qed

lemma postprocessing_map:
  "length b = nat (nr * nc) \<Longrightarrow> postprocessing_board e b nr nc = map (ALIVE e) b"
  unfolding postprocessing_board_def using foldl_update_map[of "length b" b "ALIVE e"] by simp

lemma pre_cell_flat:
  assumes "0 \<le> i" "i < n" "0 \<le> j" "j < n"
  shows "pre_cell e n b i j n = pre_flat e n b (BOARD n i j)"
  using assms by (simp add: pre_cell_fold pre_flat_def nbrs_torus torus_flat)

lemma cells2d_in_board: "v \<in> set (cells2d n) \<Longrightarrow> 0 \<le> fst v \<and> fst v < n \<and> 0 \<le> snd v \<and> snd v < n"
  by (auto simp: cells2d_def)

lemma cells2d_sum:
  fixes g :: "nat \<Rightarrow> nat"
  assumes "0 \<le> n"
  shows "sum_list (map g (map (\<lambda>v. BOARD n (fst v) (snd v)) (cells2d n))) =
         sum_list (map g [0..<nat (n * n)])"
proof -
  obtain n' where n': "n = int n'" using assms by (metis nat_0_le)
  have row: "(\<Sum>j<n'. g (i * n' + j)) = sum g {i * n'..<i * n' + n'}" for i
    using sum.shift_bounds_nat_ivl[of g 0 "i * n'" n']
    by (simp add: atLeast0LessThan add.commute)
  have "sum_list (map g (map (\<lambda>v. BOARD n (fst v) (snd v)) (cells2d n))) =
        (\<Sum>i\<leftarrow>[0..n - 1]. \<Sum>j\<leftarrow>[0..n - 1]. g (BOARD n i j))"
    by (simp add: cells2d_def map_concat sum_list_concat_nat o_def)
  also have "\<dots> = (\<Sum>i = nat 0..<nat (n - 1 + 1). \<Sum>j\<leftarrow>[0..n - 1]. g (BOARD n (int i) j))"
    by (intro sum_list_upto_nat) simp
  also have "\<dots> = (\<Sum>i<n'. \<Sum>j\<leftarrow>[0..n - 1]. g (BOARD n (int i) j))"
    by (simp add: n' atLeast0LessThan)
  also have "\<dots> = (\<Sum>i<n'. \<Sum>j<n'. g (i * n' + j))"
  proof (intro sum.cong refl)
    fix i
    have "(\<Sum>j\<leftarrow>[0..n - 1]. g (BOARD n (int i) j)) =
          (\<Sum>j = nat 0..<nat (n - 1 + 1). g (BOARD n (int i) (int j)))"
      by (intro sum_list_upto_nat) simp
    also have "\<dots> = (\<Sum>j<n'. g (i * n' + j))"
      by (simp add: n' atLeast0LessThan BOARD_def nat_add_distrib nat_mult_distrib)
    finally show "(\<Sum>j\<leftarrow>[0..n - 1]. g (BOARD n (int i) j)) = (\<Sum>j<n'. g (i * n' + j))" .
  qed
  also have "\<dots> = (\<Sum>i<n'. sum g {i * n'..<i * n' + n'})"
    by (simp only: row)
  also have "\<dots> = (\<Sum>q<n' * n'. g q)"
    by (rule sum.nat_group)
  also have "\<dots> = sum_list (map g [0..<nat (n * n)])"
    by (simp add: n' interv_sum_list_conv_sum_set_nat atLeast0LessThan nat_mult_distrib)
  finally show ?thesis .
qed

lemma cells2d_covers: "0 \<le> n \<Longrightarrow> covers 1 (nat (n * n)) (map (\<lambda>v. BOARD n (fst v) (snd v)) (cells2d n))"
  unfolding covers_def using cells2d_sum by simp

lemma pre_loop_flat:
  "foldl (\<lambda>b i. foldl (\<lambda>b j. pre_cell e n b i j n) b [0..n - 1]) b [0..n - 1] =
   foldl (pre_flat e n) b (map (\<lambda>v. BOARD n (fst v) (snd v)) (cells2d n))"
proof -
  have "foldl (\<lambda>b v. pre_cell e n b (fst v) (snd v) n) b vs =
        foldl (pre_flat e n) b (map (\<lambda>v. BOARD n (fst v) (snd v)) vs)"
    if "\<forall>v\<in>set vs. 0 \<le> fst v \<and> fst v < n \<and> 0 \<le> snd v \<and> snd v < n" for vs
    using that by (induction vs arbitrary: b) (simp_all add: pre_cell_flat)
  from this[of "cells2d n"] show ?thesis
    using cells2d_in_board[of _ n]
    by (simp add: cells2d_def foldl_concat_eq foldl_map)
qed

lemma pre_run:
  assumes e: "enc_ok e" and n: "0 < n"
  shows "length b = nat (n * n) \<Longrightarrow>
     (\<forall>k<nat (n * n). NCOUNT e (b ! k) +
         (\<Sum>q\<leftarrow>qs. if ALIVE e (b ! q) \<noteq> 0 then count_list (flat_nbrs n q) k else 0) \<le> 8) \<Longrightarrow>
     (\<forall>q\<in>set qs. q < nat (n * n)) \<Longrightarrow>
     length (foldl (pre_flat e n) b qs) = nat (n * n) \<and>
     (\<forall>k<nat (n * n).
        NCOUNT e (foldl (pre_flat e n) b qs ! k) = NCOUNT e (b ! k) +
          (\<Sum>q\<leftarrow>qs. if ALIVE e (b ! q) \<noteq> 0 then count_list (flat_nbrs n q) k else 0) \<and>
        ALIVE e (foldl (pre_flat e n) b qs ! k) = ALIVE e (b ! k))"
proof (induction qs arbitrary: b)
  case Nil
  then show ?case by simp
next
  case (Cons q qs)
  let ?N = "nat (n * n)"
  let ?b1 = "pre_flat e n b q"
  let ?m = "\<lambda>k. if ALIVE e (b ! q) \<noteq> 0 then count_list (flat_nbrs n q) k else 0"
  let ?S = "\<lambda>b k. \<Sum>q\<leftarrow>qs. if ALIVE e (b ! q) \<noteq> 0 then count_list (flat_nbrs n q) k else 0"
  have l1: "length ?b1 = ?N" using Cons.prems(1) by (simp add: pre_flat_def)
  have b1: "?b1 ! k = (INC e ^^ ?m k) (b ! k)" if "k < ?N" for k
    using that Cons.prems(1) by (simp add: pre_flat_def nth_foldl_upd)
  have bound: "NCOUNT e (b ! k) + ?m k + ?S b k \<le> 8" if "k < ?N" for k
    using Cons.prems(2) that by (simp add: add.assoc)
  have f1: "NCOUNT e (?b1 ! k) = NCOUNT e (b ! k) + ?m k \<and> ALIVE e (?b1 ! k) = ALIVE e (b ! k)"
    if "k < ?N" for k
  proof -
    have "NCOUNT e (b ! k) + ?m k \<le> 8" using bound[OF that] by linarith
    from funpow_INC[OF e this] show ?thesis by (simp only: b1[OF that])
  qed
  have S: "?S ?b1 k = ?S b k" for k
    using Cons.prems(3) f1 by (intro arg_cong[where f = sum_list] map_cong refl) simp
  have "\<forall>k<?N. NCOUNT e (?b1 ! k) + ?S ?b1 k \<le> 8"
    using bound f1 by (simp add: S)
  moreover have "\<forall>q\<in>set qs. q < ?N" using Cons.prems(3) by simp
  ultimately have ih: "length (foldl (pre_flat e n) ?b1 qs) = ?N \<and>
     (\<forall>k<?N. NCOUNT e (foldl (pre_flat e n) ?b1 qs ! k) = NCOUNT e (?b1 ! k) + ?S ?b1 k \<and>
        ALIVE e (foldl (pre_flat e n) ?b1 qs ! k) = ALIVE e (?b1 ! k))"
    using Cons.IH[OF l1] by blast
  show ?case using ih f1 by (simp add: S add.assoc)
qed

lemma preprocessing_abs:
  assumes e: "enc_ok e" and n: "0 < n" and p: "plain_board n p" and lo: "length outb = nat (n * n)"
  shows "\<exists>b. preprocessing_board e n p outb n = (b, b) \<and> counts_ok e n b \<and> map (ALIVE e) b = p"
proof -
  let ?N = "nat (n * n)"
  let ?g = "\<lambda>x. if x = 1 then SPAWN e 0 else x"
  let ?b1 = "map ?g p"
  let ?qs = "map (\<lambda>v. BOARD n (fst v) (snd v)) (cells2d n)"
  let ?b2 = "foldl (pre_flat e n) ?b1 ?qs"
  have lp: "length p = ?N" using p by (simp add: plain_board_def) linarith
  have cells: "p ! k = 0 \<or> p ! k = 1" if "k < ?N" for k
    using p that lp by (simp add: plain_board_def)
  have loop1: "foldl (\<lambda>b i. if b ! i = 1 then b[i := SPAWN e 0] else b) p [0..<?N] = ?b1"
  proof -
    have "(\<lambda>b i. if b ! i = 1 then b[i := SPAWN e 0] else b) = (\<lambda>b i. b[i := ?g (b ! i)])"
      by (intro ext) simp
    then show ?thesis using foldl_update_map[of ?N p ?g] lp by simp
  qed
  have pre: "preprocessing_board e n p outb n = (?b2, take ?N ?b2 @ drop ?N outb)"
    by (simp add: preprocessing_board_def Let_def loop1 pre_loop_flat)
  have a1: "ALIVE e (?b1 ! k) = p ! k" and c1: "NCOUNT e (?b1 ! k) = 0" if "k < ?N" for k
    using cells[OF that] that lp enc_SPAWN[OF e, of 0] enc_zero[OF e] by auto
  have cov: "covers 1 ?N ?qs" using n by (intro cells2d_covers) simp
  have qs: "\<forall>q\<in>set ?qs. q < ?N"
    using cells2d_in_board[of _ n] by (auto simp: BOARD_less)
  have S: "(\<Sum>q\<leftarrow>?qs. if ALIVE e (?b1 ! q) \<noteq> 0 then count_list (flat_nbrs n q) k else 0) =
        length (filter (\<lambda>q. ALIVE e (?b1 ! q) \<noteq> 0) (flat_nbrs n k))" if "k < ?N" for k
    using cov sum_over_nbrs[OF n that, of "\<lambda>q. ALIVE e (?b1 ! q) \<noteq> 0"]
    by (simp add: covers_def)
  have le8: "length (filter P (flat_nbrs n k)) \<le> 8" for P k
    using length_filter_le[of P "flat_nbrs n k"] by simp
  have "\<forall>k<?N. NCOUNT e (?b1 ! k) +
         (\<Sum>q\<leftarrow>?qs. if ALIVE e (?b1 ! q) \<noteq> 0 then count_list (flat_nbrs n q) k else 0) \<le> 8"
    using S c1 le8 by simp
  from pre_run[OF e n _ this qs]
  have r: "length ?b2 = ?N"
    "\<And>k. k < ?N \<Longrightarrow> NCOUNT e (?b2 ! k) = length (filter (\<lambda>q. ALIVE e (?b1 ! q) \<noteq> 0) (flat_nbrs n k))"
    "\<And>k. k < ?N \<Longrightarrow> ALIVE e (?b2 ! k) = ALIVE e (?b1 ! k)"
    using lp S c1 by simp_all
  have "filter (\<lambda>q. ALIVE e (?b1 ! q) \<noteq> 0) (flat_nbrs n k) =
        filter (\<lambda>q. ALIVE e (?b2 ! q) \<noteq> 0) (flat_nbrs n k)" for k
    using flat_nbrs_less[OF n] r(3) by (intro filter_cong refl) simp
  then have ok: "counts_ok e n ?b2"
    using r by (simp add: counts_ok_def)
  have "map (ALIVE e) ?b2 = p"
    using r lp a1 by (intro nth_equalityI) simp_all
  moreover have "take ?N ?b2 @ drop ?N outb = ?b2" using r(1) lo by simp
  ultimately show ?thesis using pre ok by simp
qed

lemma naive_life_funpow: "naive_life n g p = (naive_generation n ^^ g) p"
  by (simp add: naive_life_def)

lemma parallel_correct:
  assumes e: "enc_ok e" and T: "0 < T" and Ts: "T * (n div T) = n" and s: "4 \<le> n div T"
    and p: "plain_board n p" and lo: "length outb = nat (n * n)"
  shows "parallel_game_of_life e T outb p n n gens = Inr (naive_life n (nat gens) p)"
proof -
  have n: "0 < n" using T Ts s by (metis mult_pos_pos less_le_trans zero_less_numeral)
  obtain b where b: "preprocessing_board e n p outb n = (b, b)" "counts_ok e n b"
      "map (ALIVE e) b = p"
    using preprocessing_abs[OF e n p lo] by blast
  obtain b' where b': "generations e T n n n (nat gens) (b, b) = Inr (b', b')" "counts_ok e n b'"
      "map (ALIVE e) b' = (naive_generation n ^^ nat gens) (map (ALIVE e) b)"
    using generations_good[OF e T Ts s b(2)] by blast
  have "postprocessing_board e b' n n = map (ALIVE e) b'"
    using b'(2) by (intro postprocessing_map) (simp add: counts_ok_def)
  then show ?thesis
    using b b' by (simp add: parallel_game_of_life_def naive_life_def Let_def)
qed

lemma game_of_life_correct:
  assumes e: "enc_ok e" and T: "0 < T" and Ts: "T * (n div T) = n" and s: "4 \<le> n div T"
    and p: "plain_board n p" and lo: "length outb = nat (n * n)"
    and n: "32 \<le> n" "n \<le> 10000"
  shows "game_of_life e T seq outb p n n gens = Inr (Some (naive_life n (nat gens) p))"
  using n parallel_correct[OF e T Ts s p lo] by (simp add: game_of_life_def)

section \<open>Idle boards, narrow slices and the order of the visits\<close>

lemma sweep_idle:
  assumes "\<forall>v\<in>set vs. ALIVE e (inb ! BOARD lda (fst v) (snd v)) = 0 \<and>
                      \<not> TOSPAWN e (inb ! BOARD lda (fst v) (snd v))"
  shows "sweep e lda inb sz vs out = out"
  using assms unfolding sweep_def
  by (induction vs arbitrary: out) (simp_all add: do_cell_cases)

lemma copy_band_same:
  "copy_band T nrows ncols b t b = b"
proof -
  have "take off b @ take len (drop off b) @ drop (off + len) b = b" for off len
  proof -
    have "take off b @ take len (drop off b) @ drop (off + len) b =
          (take off b @ take len (drop off b)) @ drop (off + len) b"
      by (simp only: append_assoc)
    also have "\<dots> = take (off + len) b @ drop (off + len) b"
      by (simp only: take_add)
    also have "\<dots> = b" by (rule append_take_drop_id)
    finally show ?thesis .
  qed
  then show ?thesis by (simp only: copy_band_def Let_def)
qed

lemma copy_all_same: "foldl (\<lambda>inb t. copy_band T nrows ncols b t inb) b ts = b"
  by (induction ts) (simp_all add: copy_band_same)

lemma generations_idle:
  assumes "generation e T lda nrows ncols (b, b) = Inr (b, b)"
  shows "generations e T lda nrows ncols g (b, b) = Inr (b, b)"
  using assms by (induction g) simp_all

lemma dead_board_run:
  assumes e: "enc_ok e" and T: "0 < T" and s: "2 \<le> n div T" and lo: "length outb = nat (n * n)"
  shows "parallel_game_of_life e T outb (replicate (nat (n * n)) 0) n n gens =
         Inr (replicate (nat (n * n)) 0)"
proof -
  let ?N = "nat (n * n)"
  let ?z = "replicate ?N (0::cell)"
  have n: "0 < n"
  proof (rule ccontr)
    assume "\<not> 0 < n"
    then have "n div T \<le> 0" using T by (simp add: div_nonpos_pos_le0)
    with s show False by simp
  qed
  have pz: "plain_board n ?z" using n by (simp add: plain_board_def)
  obtain b where b: "preprocessing_board e n ?z outb n = (b, b)" "counts_ok e n b"
      "map (ALIVE e) b = ?z"
    using preprocessing_abs[OF e n pz lo] by blast
  have lb: "length b = ?N" using b(2) by (simp add: counts_ok_def)
  have a: "ALIVE e (b ! k) = 0" if "k < ?N" for k
  proof -
    have "map (ALIVE e) b ! k = ?z ! k" by (simp only: b(3))
    then show ?thesis using that lb by simp
  qed
  have c: "NCOUNT e (b ! k) = 0" if "k < ?N" for k
  proof -
    have "filter (\<lambda>q. ALIVE e (b ! q) \<noteq> 0) (flat_nbrs n k) = []"
      using flat_nbrs_less[OF n] a by (auto simp: filter_empty_conv)
    then show ?thesis using b(2) that lb by (simp add: counts_ok_def)
  qed
  have idle: "\<forall>v\<in>set (visits T n n). ALIVE e (b ! BOARD n (fst v) (snd v)) = 0 \<and>
                      \<not> TOSPAWN e (b ! BOARD n (fst v) (snd v))"
  proof
    fix v assume "v \<in> set (visits T n n)"
    then have "0 \<le> fst v \<and> fst v < n \<and> 0 \<le> snd v \<and> snd v < n"
      using visits_in_board[of T n v n] T n s by simp
    then have k: "BOARD n (fst v) (snd v) < ?N" by (simp add: BOARD_less)
    show "ALIVE e (b ! BOARD n (fst v) (snd v)) = 0 \<and> \<not> TOSPAWN e (b ! BOARD n (fst v) (snd v))"
      using a[OF k] c[OF k] enc_TOSPAWN[OF e, of "b ! BOARD n (fst v) (snd v)"] by simp
  qed
  have "cols_loop (worker_sweep e T n b n n) [0..T - 1] b = Inr (sweep e n b n (visits T n n) b)"
    using T n s by (intro phase1_ok) simp_all
  then have "generation e T n n n (b, b) = Inr (b, b)"
    by (simp add: generation_def sweep_idle[OF idle] copy_all_same)
  then have "generations e T n n n (nat gens) (b, b) = Inr (b, b)"
    by (rule generations_idle)
  moreover have "postprocessing_board e b n n = map (ALIVE e) b"
    using lb by (intro postprocessing_map) simp
  ultimately show ?thesis
    using b by (simp add: parallel_game_of_life_def Let_def)
qed

lemma narrow_fault:
  assumes T: "0 < T" and c: "0 < ncols" and s: "nrows div T \<le> 1"
  shows "generation e T lda nrows ncols bs = Inl OutOfBoard"
proof -
  let ?s = "nrows div T"
  have mem: "?s - 2 \<in> set (slice_rows (0 * ?s) (0 * ?s + ?s))"
    by (simp add: slice_rows_def)
  have bad: "\<not> (\<forall>i\<in>set (slice_rows (0 * ?s) (0 * ?s + ?s)). 0 \<le> i \<and> i < nrows)"
  proof
    assume "\<forall>i\<in>set (slice_rows (0 * ?s) (0 * ?s + ?s)). 0 \<le> i \<and> i < nrows"
    with mem have "0 \<le> ?s - 2" by blast
    with s show False by simp
  qed
  have col: "worker_column e lda (fst bs) nrows (0 * ?s) (0 * ?s + ?s) 0 b = Inl OutOfBoard" for b
    unfolding worker_column_rows using bad by (rule rows_loop_bad)
  have cs: "[0..ncols - 1] = 0 # [1..ncols - 1]" using c by (simp add: upto_rec1)
  have ts: "[0..T - 1] = 0 # [1..T - 1]" using T by (simp add: upto_rec1)
  have "worker_sweep e T lda (fst bs) nrows ncols 0 b = Inl OutOfBoard" for b
    unfolding worker_sweep_def Let_def cs using col by simp
  then show ?thesis
    unfolding generation_def ts by simp
qed

lemma narrow_fault_run:
  assumes "0 < T" "0 < n" "n div T \<le> 1" "0 < gens" "32 \<le> n" "n \<le> 10000"
  shows "game_of_life e T seq outb inb n n gens = Inl OutOfBoard"
proof -
  obtain g where g: "nat gens = Suc g" using assms(4) by (cases "nat gens") auto
  have "generations e T n n n (nat gens) bs = Inl OutOfBoard" for bs
    unfolding g using narrow_fault[OF assms(1,2,3)] by simp
  then show ?thesis using assms(5,6)
    by (simp add: game_of_life_def parallel_game_of_life_def Let_def)
qed

lemma covers_perm:
  assumes "covers w N (map h vs)" "mset vs' = mset vs"
  shows "covers w N (map h vs')"
proof -
  have "sum_list (map g (map h vs')) = sum_list (map g (map h vs))" for g :: "nat \<Rightarrow> nat"
  proof -
    have "mset (map (g \<circ> h) vs') = mset (map (g \<circ> h) vs)" using assms(2) by simp
    then have "sum_mset (mset (map (g \<circ> h) vs')) = sum_mset (mset (map (g \<circ> h) vs))" by simp
    then show ?thesis by (simp only: sum_mset_sum_list map_map)
  qed
  then show ?thesis using assms(1) by (simp add: covers_def)
qed

lemma sweep_order_irrelevant:
  assumes e: "enc_ok e" and T: "0 < T" and Ts: "T * (n div T) = n" and s: "4 \<le> n div T"
    and ok: "counts_ok e n b" and perm: "mset vs = mset (visits T n n)" and k: "k < nat (n * n)"
  shows "ALIVE e (sweep e n b n vs b ! k) = ALIVE e (sweep e n b n (visits T n n) b ! k) \<and>
         NCOUNT e (sweep e n b n vs b ! k) = NCOUNT e (sweep e n b n (visits T n n) b ! k)"
proof -
  have n: "0 < n" using T Ts s by (metis mult_pos_pos less_le_trans zero_less_numeral)
  let ?h = "\<lambda>v. BOARD n (fst v) (snd v)"
  have vs0: "\<forall>v\<in>set (visits T n n). 0 \<le> fst v \<and> fst v < n \<and> 0 \<le> snd v \<and> snd v < n"
    using visits_in_board[of T n _ n] T n s by auto
  have cov0: "covers 1 (nat (n * n)) (map ?h (visits T n n))"
    using fvisits_covers[OF T Ts] s by (simp add: fvisits_def slice_weight_def)
  have vs: "\<forall>v\<in>set vs. 0 \<le> fst v \<and> fst v < n \<and> 0 \<le> snd v \<and> snd v < n"
    using vs0 mset_eq_setD[OF perm] by simp
  have cov: "covers 1 (nat (n * n)) (map ?h vs)"
    using cov0 perm by (rule covers_perm)
  note g0 = sweep_good[OF e n ok vs0 cov0] and g = sweep_good[OF e n ok vs cov]
  have al: "ALIVE e (sweep e n b n vs b ! q) = ALIVE e (sweep e n b n (visits T n n) b ! q)"
    if "q < nat (n * n)" for q
    using g0 g that by simp
  have "filter (\<lambda>q. ALIVE e (sweep e n b n vs b ! q) \<noteq> 0) (flat_nbrs n k) =
        filter (\<lambda>q. ALIVE e (sweep e n b n (visits T n n) b ! q) \<noteq> 0) (flat_nbrs n k)"
    using flat_nbrs_less[OF n] al by (intro filter_cong refl) simp
  then have "NCOUNT e (sweep e n b n vs b ! k) = NCOUNT e (sweep e n b n (visits T n n) b ! k)"
    using g0 g k by (simp add: counts_ok_def)
  then show ?thesis using al[OF k] by simp
qed

section \<open>Slices of two rows on a sample board\<close>

lemma plain_tromino32: "plain_board 32 tromino32"
  by (auto simp: plain_board_def tromino32_def nth_list_update)

lemma counts_ok_naive:
  assumes e: "enc_ok e" and n: "0 < n" and ok: "counts_ok e n b" and k: "k < nat (n * n)"
  shows "naive_count n (map (ALIVE e) b) (int k div n) (int k mod n) = NCOUNT e (b ! k)"
proof -
  have lb: "length b = nat (n * n)" using ok by (simp add: counts_ok_def)
  have "filter (\<lambda>q. map (ALIVE e) b ! q = 1) (flat_nbrs n k) =
        filter (\<lambda>q. ALIVE e (b ! q) \<noteq> 0) (flat_nbrs n k)"
  proof (intro filter_cong refl)
    fix q assume "q \<in> set (flat_nbrs n k)"
    then have "q < nat (n * n)" using flat_nbrs_less[OF n] by blast
    then show "(map (ALIVE e) b ! q = 1) = (ALIVE e (b ! q) \<noteq> 0)"
      using enc_ALIVE[OF e, of "b ! q"] lb by auto
  qed
  then show ?thesis
    using ok k lb by (simp add: naive_count_torus flat_nbrs_def[symmetric] counts_ok_def)
qed

lemma pos_size:
  fixes T n :: int
  assumes "0 < T" "T * (n div T) = n" "2 \<le> n div T"
  shows "0 < n"
proof -
  have "0 < T * (n div T)" using assms(1,3) by (intro mult_pos_pos) auto
  then show ?thesis using assms(2) by simp
qed

lemma generation_sweep:
  assumes T: "0 < T" and Ts: "T * (n div T) = n" and s: "2 \<le> n div T"
    and lb: "length b = nat (n * n)"
  shows "generation e T n n n (b, b) = Inr (gen_board e T n b, gen_board e T n b)"
proof -
  have n: "0 \<le> n" using pos_size[OF T Ts s] by simp
  have p1: "cols_loop (worker_sweep e T n b n n) [0..T - 1] b = Inr (gen_board e T n b)"
    unfolding gen_board_def using T n s by (intro phase1_ok) auto
  have cp: "foldl (\<lambda>inb t. copy_band T n n (gen_board e T n b) t inb) b [0..T - 1] = gen_board e T n b"
    using s lb by (intro copy_all[OF T Ts]) (simp_all add: gen_board_def)
  show ?thesis by (simp add: generation_def p1 cp)
qed

lemma length_gen_board [simp]: "length (gen_board e T n b) = length b"
  by (simp add: gen_board_def)

lemma abs_step:
  assumes e: "enc_ok e" and T: "0 < T" and Ts: "T * (n div T) = n"
    and s: "4 \<le> n div T \<or> n div T = 2"
    and lb: "length b = nat (n * n)" and k: "k < nat (n * n)"
    and agree: "\<forall>q\<in>set (k # flat_nbrs n k). (ALIVE e (b ! q) \<noteq> 0) = A q \<and> NCOUNT e (b ! q) = C q"
    and ok: "range_ok A C (slice_weight (n div T)) n k"
  shows "(ALIVE e (gen_board e T n b ! k) \<noteq> 0) = stepA A C k \<and>
         NCOUNT e (gen_board e T n b ! k) = stepC A C (slice_weight (n div T)) n k"
proof -
  let ?w = "slice_weight (n div T)"
  have s2: "2 \<le> n div T" using s by auto
  have n: "0 < n" using T Ts s2 by (rule pos_size)
  have d: "dies e b q = rule_dies A C q" and sp: "spawns e b q = rule_spawns A C q"
    if q: "q \<in> set (k # flat_nbrs n k)" for q
  proof -
    have a: "(ALIVE e (b ! q) \<noteq> 0) = A q" "NCOUNT e (b ! q) = C q"
      using agree q by blast+
    show "dies e b q = rule_dies A C q"
    proof (cases "ALIVE e (b ! q) = 0")
      case True
      then show ?thesis using a by (simp add: dies_def rule_dies_def)
    next
      case False
      from enc_TOKILL[OF e False] show ?thesis
        using a False by (simp add: dies_def rule_dies_def)
    qed
    show "spawns e b q = rule_spawns A C q"
    proof (cases "ALIVE e (b ! q) = 0")
      case True
      from enc_TOSPAWN[OF e True] show ?thesis
        using a True by (simp add: spawns_def rule_spawns_def)
    next
      case False
      then show ?thesis using a by (simp add: spawns_def rule_spawns_def)
    qed
  qed
  have dk: "dies e b k = rule_dies A C k" and spk: "spawns e b k = rule_spawns A C k"
    using d[of k] sp[of k] by simp_all
  have fd: "filter (dies e b) (flat_nbrs n k) = filter (rule_dies A C) (flat_nbrs n k)"
    using d by (intro filter_cong refl) simp
  have fs: "filter (spawns e b) (flat_nbrs n k) = filter (rule_spawns A C) (flat_nbrs n k)"
    using sp by (intro filter_cong refl) simp
  have ck: "NCOUNT e (b ! k) = C k" "(ALIVE e (b ! k) \<noteq> 0) = A k" using agree by simp_all
  have vs: "\<forall>v\<in>set (visits T n n). 0 \<le> fst v \<and> fst v < n \<and> 0 \<le> snd v \<and> snd v < n"
    using visits_in_board[of T n _ n] T n s2 by auto
  have cov: "covers ?w (nat (n * n)) (map (\<lambda>v. BOARD n (fst v) (snd v)) (visits T n n))"
    using fvisits_covers[OF T Ts s] by (simp add: fvisits_def)
  have w: "0 < ?w" by (simp add: slice_weight_def)
  have lo: "?w * length (filter (dies e b) (flat_nbrs n k)) \<le> NCOUNT e (b ! k)"
    and hi: "NCOUNT e (b ! k) + ?w * length (filter (spawns e b) (flat_nbrs n k)) \<le> 8"
    using ok by (simp_all add: range_ok_def fd fs ck)
  note sa = sweep_abs[OF e n lb k vs cov w lo hi, folded gen_board_def]
  have r1: "NCOUNT e (gen_board e T n b ! k) + ?w * length (filter (rule_dies A C) (flat_nbrs n k)) =
           C k + ?w * length (filter (rule_spawns A C) (flat_nbrs n k))"
    using sa[THEN conjunct1] by (simp only: fd fs ck(1))
  have r2: "ALIVE e (gen_board e T n b ! k) =
           (if rule_dies A C k then 0 else if rule_spawns A C k then 1 else ALIVE e (b ! k))"
    using sa[THEN conjunct2] by (simp only: dk spk)
  have "(ALIVE e (gen_board e T n b ! k) \<noteq> 0) = stepA A C k"
    using r2 ck(2) by (simp add: stepA_def)
  moreover have "NCOUNT e (gen_board e T n b ! k) = stepC A C ?w n k"
    using r1 by (simp add: stepC_def)
  ultimately show ?thesis by simp
qed

lemma tromino_alive: "q < 1024 \<Longrightarrow> plain_alive tromino32 q \<longleftrightarrow> q = 165 \<or> q = 166 \<or> q = 197"
  by (auto simp: plain_alive_def tromino32_def nth_list_update)

lemma nbrs_tbl:
  "flat_nbrs 32 99 = [66, 67, 68, 98, 100, 130, 131, 132]"
  "flat_nbrs 32 100 = [67, 68, 69, 99, 101, 131, 132, 133]"
  "flat_nbrs 32 101 = [68, 69, 70, 100, 102, 132, 133, 134]"
  "flat_nbrs 32 102 = [69, 70, 71, 101, 103, 133, 134, 135]"
  "flat_nbrs 32 103 = [70, 71, 72, 102, 104, 134, 135, 136]"
  "flat_nbrs 32 131 = [98, 99, 100, 130, 132, 162, 163, 164]"
  "flat_nbrs 32 132 = [99, 100, 101, 131, 133, 163, 164, 165]"
  "flat_nbrs 32 133 = [100, 101, 102, 132, 134, 164, 165, 166]"
  "flat_nbrs 32 134 = [101, 102, 103, 133, 135, 165, 166, 167]"
  "flat_nbrs 32 135 = [102, 103, 104, 134, 136, 166, 167, 168]"
  "flat_nbrs 32 163 = [130, 131, 132, 162, 164, 194, 195, 196]"
  "flat_nbrs 32 164 = [131, 132, 133, 163, 165, 195, 196, 197]"
  "flat_nbrs 32 165 = [132, 133, 134, 164, 166, 196, 197, 198]"
  "flat_nbrs 32 166 = [133, 134, 135, 165, 167, 197, 198, 199]"
  "flat_nbrs 32 167 = [134, 135, 136, 166, 168, 198, 199, 200]"
  "flat_nbrs 32 195 = [162, 163, 164, 194, 196, 226, 227, 228]"
  "flat_nbrs 32 196 = [163, 164, 165, 195, 197, 227, 228, 229]"
  "flat_nbrs 32 197 = [164, 165, 166, 196, 198, 228, 229, 230]"
  "flat_nbrs 32 198 = [165, 166, 167, 197, 199, 229, 230, 231]"
  "flat_nbrs 32 199 = [166, 167, 168, 198, 200, 230, 231, 232]"
  "flat_nbrs 32 227 = [194, 195, 196, 226, 228, 258, 259, 260]"
  "flat_nbrs 32 228 = [195, 196, 197, 227, 229, 259, 260, 261]"
  "flat_nbrs 32 229 = [196, 197, 198, 228, 230, 260, 261, 262]"
  "flat_nbrs 32 230 = [197, 198, 199, 229, 231, 261, 262, 263]"
  "flat_nbrs 32 231 = [198, 199, 200, 230, 232, 262, 263, 264]"
  by (simp_all add: flat_nbrs_def torus_nbrs_def offsets_def BOARD_def)

lemma count0_tbl:
  "plain_count 32 tromino32 99 = 0"
  "plain_count 32 tromino32 100 = 0"
  "plain_count 32 tromino32 101 = 0"
  "plain_count 32 tromino32 102 = 0"
  "plain_count 32 tromino32 103 = 0"
  "plain_count 32 tromino32 131 = 0"
  "plain_count 32 tromino32 132 = 1"
  "plain_count 32 tromino32 133 = 2"
  "plain_count 32 tromino32 134 = 2"
  "plain_count 32 tromino32 135 = 1"
  "plain_count 32 tromino32 163 = 0"
  "plain_count 32 tromino32 164 = 2"
  "plain_count 32 tromino32 165 = 2"
  "plain_count 32 tromino32 166 = 2"
  "plain_count 32 tromino32 167 = 1"
  "plain_count 32 tromino32 195 = 0"
  "plain_count 32 tromino32 196 = 2"
  "plain_count 32 tromino32 197 = 2"
  "plain_count 32 tromino32 198 = 3"
  "plain_count 32 tromino32 199 = 1"
  "plain_count 32 tromino32 227 = 0"
  "plain_count 32 tromino32 228 = 1"
  "plain_count 32 tromino32 229 = 1"
  "plain_count 32 tromino32 230 = 1"
  "plain_count 32 tromino32 231 = 0"
  by (simp_all add: plain_count_def nbrs_tbl tromino_alive)

lemma range0_tbl:
  "range_ok (plain_alive tromino32) (plain_count 32 tromino32) 2 32 165"
  "range_ok (plain_alive tromino32) (plain_count 32 tromino32) 2 32 132"
  "range_ok (plain_alive tromino32) (plain_count 32 tromino32) 2 32 133"
  "range_ok (plain_alive tromino32) (plain_count 32 tromino32) 2 32 134"
  "range_ok (plain_alive tromino32) (plain_count 32 tromino32) 2 32 164"
  "range_ok (plain_alive tromino32) (plain_count 32 tromino32) 2 32 166"
  "range_ok (plain_alive tromino32) (plain_count 32 tromino32) 2 32 196"
  "range_ok (plain_alive tromino32) (plain_count 32 tromino32) 2 32 197"
  "range_ok (plain_alive tromino32) (plain_count 32 tromino32) 2 32 198"
  by (simp_all add: range_ok_def rule_dies_def rule_spawns_def nbrs_tbl count0_tbl tromino_alive)

lemma alive1_tbl:
  "stepA (plain_alive tromino32) (plain_count 32 tromino32) 165 = True"
  "stepA (plain_alive tromino32) (plain_count 32 tromino32) 132 = False"
  "stepA (plain_alive tromino32) (plain_count 32 tromino32) 133 = False"
  "stepA (plain_alive tromino32) (plain_count 32 tromino32) 134 = False"
  "stepA (plain_alive tromino32) (plain_count 32 tromino32) 164 = False"
  "stepA (plain_alive tromino32) (plain_count 32 tromino32) 166 = True"
  "stepA (plain_alive tromino32) (plain_count 32 tromino32) 196 = False"
  "stepA (plain_alive tromino32) (plain_count 32 tromino32) 197 = True"
  "stepA (plain_alive tromino32) (plain_count 32 tromino32) 198 = True"
  by (simp_all add: stepA_def rule_dies_def rule_spawns_def count0_tbl tromino_alive)

lemma count1_tbl:
  "stepC (plain_alive tromino32) (plain_count 32 tromino32) 2 32 165 = 4"
  "stepC (plain_alive tromino32) (plain_count 32 tromino32) 2 32 132 = 1"
  "stepC (plain_alive tromino32) (plain_count 32 tromino32) 2 32 133 = 2"
  "stepC (plain_alive tromino32) (plain_count 32 tromino32) 2 32 134 = 2"
  "stepC (plain_alive tromino32) (plain_count 32 tromino32) 2 32 164 = 2"
  "stepC (plain_alive tromino32) (plain_count 32 tromino32) 2 32 166 = 4"
  "stepC (plain_alive tromino32) (plain_count 32 tromino32) 2 32 196 = 2"
  "stepC (plain_alive tromino32) (plain_count 32 tromino32) 2 32 197 = 4"
  "stepC (plain_alive tromino32) (plain_count 32 tromino32) 2 32 198 = 3"
  by (simp_all add: stepC_def rule_dies_def rule_spawns_def nbrs_tbl count0_tbl tromino_alive)

lemma range1_k: "range_ok (stepA (plain_alive tromino32) (plain_count 32 tromino32)) (stepC (plain_alive tromino32) (plain_count 32 tromino32) 2 32) 2 32 165"
  by (simp add: range_ok_def rule_dies_def rule_spawns_def nbrs_tbl alive1_tbl count1_tbl)

lemma alive2_k: "\<not> stepA (stepA (plain_alive tromino32) (plain_count 32 tromino32)) (stepC (plain_alive tromino32) (plain_count 32 tromino32) 2 32) 165"
  by (simp add: stepA_def rule_dies_def rule_spawns_def alive1_tbl count1_tbl)

lemma tromino_value:
  "q < 1024 \<Longrightarrow> tromino32 ! q = (if q = 165 \<or> q = 166 \<or> q = 197 then 1 else 0)"
  by (auto simp: tromino32_def nth_list_update)

lemma naive_generation_nth:
  "k < nat (n * n) \<Longrightarrow> naive_generation n p ! k = naive_cell n p (int k div n) (int k mod n)"
  by (simp add: naive_generation_def)

lemma naive1_tbl:
  "naive_generation 32 tromino32 ! 165 = 1"
  "naive_generation 32 tromino32 ! 132 = 0"
  "naive_generation 32 tromino32 ! 133 = 0"
  "naive_generation 32 tromino32 ! 134 = 0"
  "naive_generation 32 tromino32 ! 164 = 0"
  "naive_generation 32 tromino32 ! 166 = 1"
  "naive_generation 32 tromino32 ! 196 = 0"
  "naive_generation 32 tromino32 ! 197 = 1"
  "naive_generation 32 tromino32 ! 198 = 1"
  by (simp_all add: naive_generation_nth naive_cell_def naive_count_def offsets_def tromino_value)

lemma naive2_cell: "naive_life 32 (nat 2) tromino32 ! 165 = 1"
proof -
  have "naive_life 32 (nat 2) tromino32 ! 165 = naive_cell 32 (naive_generation 32 tromino32) 5 5"
    using naive_generation_nth[of 165 32 "naive_generation 32 tromino32"]
    by (simp add: naive_life_def numeral_2_eq_2)
  also have "\<dots> = 1"
    by (simp add: naive_cell_def naive_count_def offsets_def naive1_tbl)
  finally show ?thesis .
qed

lemma tromino_narrow:
  obtains b0 b1 b2 where
    "preprocessing_board nibble_enc 32 tromino32 (replicate 1024 0) 32 = (b0, b0)"
    "generation nibble_enc 16 32 32 32 (b0, b0) = Inr (b1, b1)"
    "generation nibble_enc 16 32 32 32 (b1, b1) = Inr (b2, b2)"
    "length b1 = 1024" "length b2 = 1024"
    "\<forall>q\<in>set (165 # flat_nbrs 32 165).
        (ALIVE nibble_enc (b1 ! q) \<noteq> 0) = stepA (plain_alive tromino32) (plain_count 32 tromino32) q \<and>
        NCOUNT nibble_enc (b1 ! q) = stepC (plain_alive tromino32) (plain_count 32 tromino32) 2 32 q"
    "ALIVE nibble_enc (b2 ! 165) = 0"
proof -
  let ?e = nibble_enc
  let ?A0 = "plain_alive tromino32" and ?C0 = "plain_count 32 tromino32"
  note e = nibble_enc_ok
  have T: "(0::int) < 16" "(16::int) * (32 div 16) = 32" "(4::int) \<le> 32 div 16 \<or> (32::int) div 16 = 2"
    by simp_all
  have w: "slice_weight (32 div 16) = 2" "slice_weight 2 = 2" by (simp_all add: slice_weight_def)
  have N: "nat (32 * 32) = 1024" by simp
  obtain b0 where b0: "preprocessing_board ?e 32 tromino32 (replicate 1024 0) 32 = (b0, b0)"
      "counts_ok ?e 32 b0" "map (ALIVE ?e) b0 = tromino32"
    using preprocessing_abs[OF e _ plain_tromino32, of "replicate 1024 0"] by auto
  have l0: "length b0 = nat (32 * 32)" using b0(2) by (simp add: counts_ok_def)
  have a0: "(ALIVE ?e (b0 ! q) \<noteq> 0) = ?A0 q" if "q < 1024" for q
  proof -
    have "map (ALIVE ?e) b0 ! q = tromino32 ! q" by (simp only: b0(3))
    then show ?thesis using that l0 by (simp add: plain_alive_def)
  qed
  have c0: "NCOUNT ?e (b0 ! q) = ?C0 q" if "q < 1024" for q
  proof -
    have "filter (\<lambda>x. ALIVE ?e (b0 ! x) \<noteq> 0) (flat_nbrs 32 q) = filter ?A0 (flat_nbrs 32 q)"
      using flat_nbrs_less[of 32 _ q] a0 by (intro filter_cong refl) simp
    then show ?thesis using b0(2) that l0 by (simp add: counts_ok_def plain_count_def)
  qed
  have agree0: "\<forall>x\<in>set (q # flat_nbrs 32 q). (ALIVE ?e (b0 ! x) \<noteq> 0) = ?A0 x \<and> NCOUNT ?e (b0 ! x) = ?C0 x"
    if "q < 1024" for q
    using that flat_nbrs_less[of 32 _ q] a0 c0 by auto
  define b1 where "b1 = gen_board ?e 16 32 b0"
  define b2 where "b2 = gen_board ?e 16 32 b1"
  have l1: "length b1 = nat (32 * 32)" and l2: "length b2 = nat (32 * 32)"
    using l0 by (simp_all add: b1_def b2_def)
  have g1: "generation ?e 16 32 32 32 (b0, b0) = Inr (b1, b1)"
    unfolding b1_def using l0 by (intro generation_sweep) simp_all
  have g2: "generation ?e 16 32 32 32 (b1, b1) = Inr (b2, b2)"
    unfolding b2_def using l1 by (intro generation_sweep) simp_all
  have f1: "(ALIVE ?e (b1 ! q) \<noteq> 0) = stepA ?A0 ?C0 q \<and> NCOUNT ?e (b1 ! q) = stepC ?A0 ?C0 2 32 q"
    if q: "q < 1024" and r: "range_ok ?A0 ?C0 2 32 q" for q
    using abs_step[OF e T l0 _ agree0[OF q]] q r by (simp add: w b1_def)
  have s1: "\<forall>q\<in>set (165 # flat_nbrs 32 165).
        (ALIVE ?e (b1 ! q) \<noteq> 0) = stepA ?A0 ?C0 q \<and> NCOUNT ?e (b1 ! q) = stepC ?A0 ?C0 2 32 q"
    using f1 by (simp add: nbrs_tbl range0_tbl)
  have "(ALIVE ?e (b2 ! 165) \<noteq> 0) = stepA (stepA ?A0 ?C0) (stepC ?A0 ?C0 2 32) 165"
    using abs_step[OF e T l1 _ s1] range1_k by (simp add: w b2_def)
  then have "ALIVE ?e (b2 ! 165) = 0" using alive2_k by simp
  then show ?thesis using that[OF b0(1) g1 g2 _ _ s1] l1 l2 by simp
qed

lemma narrow_run_wrong:
  "game_of_life nibble_enc 16 seq (replicate 1024 0) tromino32 32 32 2 \<noteq>
   Inr (Some (naive_life 32 (nat 2) tromino32))"
proof -
  obtain b0 b1 b2 where b:
    "preprocessing_board nibble_enc 32 tromino32 (replicate 1024 0) 32 = (b0, b0)"
    "generation nibble_enc 16 32 32 32 (b0, b0) = Inr (b1, b1)"
    "generation nibble_enc 16 32 32 32 (b1, b1) = Inr (b2, b2)"
    "length b2 = 1024" "ALIVE nibble_enc (b2 ! 165) = 0"
    using tromino_narrow by metis
  have "generations nibble_enc 16 32 32 32 (nat 2) (b0, b0) = Inr (b2, b2)"
    using b(2,3) by (simp add: numeral_2_eq_2)
  moreover have "postprocessing_board nibble_enc b2 32 32 = map (ALIVE nibble_enc) b2"
    using b(4) by (intro postprocessing_map) simp
  ultimately have run: "game_of_life nibble_enc 16 seq (replicate 1024 0) tromino32 32 32 2 =
      Inr (Some (map (ALIVE nibble_enc) b2))"
    using b(1) by (simp add: game_of_life_def parallel_game_of_life_def Let_def)
  have "map (ALIVE nibble_enc) b2 ! 165 = 0" using b(4,5) by simp
  then have "map (ALIVE nibble_enc) b2 \<noteq> naive_life 32 (nat 2) tromino32"
    using naive2_cell by (metis zero_neq_one)
  then show ?thesis using run by simp
qed

lemma narrow_counts_wrong:
  "\<not> isl tromino_narrow_run \<and>
   NCOUNT nibble_enc (snd (projr tromino_narrow_run) ! 165) = 4 \<and>
   naive_count 32 (map (ALIVE nibble_enc) (snd (projr tromino_narrow_run))) 5 5 = 3"
proof -
  let ?A1 = "stepA (plain_alive tromino32) (plain_count 32 tromino32)"
  obtain b0 b1 where b:
    "preprocessing_board nibble_enc 32 tromino32 (replicate 1024 0) 32 = (b0, b0)"
    "generation nibble_enc 16 32 32 32 (b0, b0) = Inr (b1, b1)"
    "length b1 = 1024"
    "\<forall>q\<in>set (165 # flat_nbrs 32 165).
        (ALIVE nibble_enc (b1 ! q) \<noteq> 0) = ?A1 q \<and>
        NCOUNT nibble_enc (b1 ! q) = stepC (plain_alive tromino32) (plain_count 32 tromino32) 2 32 q"
    using tromino_narrow by metis
  have run: "tromino_narrow_run = Inr (b1, b1)"
    using b(1,2) by (simp add: tromino_narrow_run_def)
  have cnt: "NCOUNT nibble_enc (b1 ! 165) = 4"
    using b(4) by (simp add: count1_tbl)
  have "filter (\<lambda>k. map (ALIVE nibble_enc) b1 ! k = 1) (flat_nbrs 32 165) =
        filter ?A1 (flat_nbrs 32 165)"
  proof (intro filter_cong refl)
    fix q assume q: "q \<in> set (flat_nbrs 32 165)"
    then have "q < 1024" using flat_nbrs_less[of 32 q 165] by simp
    moreover have "(ALIVE nibble_enc (b1 ! q) \<noteq> 0) = ?A1 q" using b(4) q by simp
    ultimately show "(map (ALIVE nibble_enc) b1 ! q = 1) = ?A1 q"
      using enc_ALIVE[OF nibble_enc_ok, of "b1 ! q"] b(3) by auto
  qed
  moreover have "torus_nbrs 32 5 5 = flat_nbrs 32 165"
    by (simp add: flat_nbrs_def)
  ultimately have "naive_count 32 (map (ALIVE nibble_enc) b1) 5 5 = length (filter ?A1 (flat_nbrs 32 165))"
    by (simp add: naive_count_torus)
  also have "\<dots> = 3" by (simp add: nbrs_tbl alive1_tbl)
  finally have nc: "naive_count 32 (map (ALIVE nibble_enc) b1) 5 5 = 3" .
  show ?thesis unfolding run using cnt nc by simp
qed

lemma naive_count_is_invariant:
  assumes e: "enc_ok e" and n: "0 < n" and ok: "counts_ok e n b"
  shows "\<forall>k<nat (n * n). NCOUNT e (b ! k) = naive_count n (map (ALIVE e) b) (int k div n) (int k mod n)"
  using counts_ok_naive[OF e n ok] by simp

section \<open>The dispatcher's null result\<close>




section \<open>The per-cell transition\<close>

text \<open>
  C4: \<^verbatim>\<open>do_cell\<close> at an in-range position \<open>(i, j)\<close> of an \<open>n \<times> n\<close> board, cell by
  cell of the next buffer. If the current cell is alive with a count other than 2 and 3,
  the cell itself gets \<open>KILL\<close> and \<open>DEC\<close> is applied to a cell once for each time it
  occurs among the eight toroidal neighbours; if the current cell is dead with count 3,
  the same with \<open>SPAWN\<close> and \<open>INC\<close>; in every other case the next buffer is returned
  unchanged. From \<open>n = 3\<close> on the eight neighbours are eight different cells, none of
  them \<open>(i, j)\<close>, so each is decremented (incremented) exactly once.
\<close>

theorem do_cell_transition:
  assumes "enc_ok e" "0 \<le> i" "i < n" "0 \<le> j" "j < n" "k < length next"
  shows "do_cell e n next cur i j n ! k =
           (if ALIVE e (cur ! BOARD n i j) \<noteq> 0 \<and> NCOUNT e (cur ! BOARD n i j) \<noteq> 2 \<and>
               NCOUNT e (cur ! BOARD n i j) \<noteq> 3
            then (DEC e ^^ count_list (torus_nbrs n i j) k)
                   (if k = BOARD n i j then KILL e (next ! k) else next ! k)
            else if ALIVE e (cur ! BOARD n i j) = 0 \<and> NCOUNT e (cur ! BOARD n i j) = 3
            then (INC e ^^ count_list (torus_nbrs n i j) k)
                   (if k = BOARD n i j then SPAWN e (next ! k) else next ! k)
            else next ! k) \<and>
         length (do_cell e n next cur i j n) = length next \<and>
         (\<not> (ALIVE e (cur ! BOARD n i j) \<noteq> 0 \<and> NCOUNT e (cur ! BOARD n i j) \<noteq> 2 \<and>
               NCOUNT e (cur ! BOARD n i j) \<noteq> 3) \<and>
          \<not> (ALIVE e (cur ! BOARD n i j) = 0 \<and> NCOUNT e (cur ! BOARD n i j) = 3) \<longrightarrow>
          do_cell e n next cur i j n = next) \<and>
         (3 \<le> n \<longrightarrow> distinct (torus_nbrs n i j) \<and> BOARD n i j \<notin> set (torus_nbrs n i j))"
proof -
  let ?c = "cur ! BOARD n i j"
  have kill: "ALIVE e ?c \<noteq> 0 \<Longrightarrow> (TOKILL e ?c \<longleftrightarrow> NCOUNT e ?c \<noteq> 2 \<and> NCOUNT e ?c \<noteq> 3)"
    using assms(1) by (simp add: enc_ok_def)
  have spawn: "ALIVE e ?c = 0 \<Longrightarrow> (TOSPAWN e ?c \<longleftrightarrow> NCOUNT e ?c = 3)"
    using assms(1) by (simp add: enc_ok_def)
  have nth: "do_cell e n next cur i j n ! k = cell_effect e n cur n (i, j) k (next ! k)"
    using assms(6) by (rule do_cell_nth)
  have 1: "do_cell e n next cur i j n ! k =
           (if ALIVE e ?c \<noteq> 0 \<and> NCOUNT e ?c \<noteq> 2 \<and> NCOUNT e ?c \<noteq> 3
            then (DEC e ^^ count_list (torus_nbrs n i j) k)
                   (if k = BOARD n i j then KILL e (next ! k) else next ! k)
            else if ALIVE e ?c = 0 \<and> NCOUNT e ?c = 3
            then (INC e ^^ count_list (torus_nbrs n i j) k)
                   (if k = BOARD n i j then SPAWN e (next ! k) else next ! k)
            else next ! k)"
    unfolding nth using kill spawn assms(2-5)
    by (auto simp: cell_effect_def nbrs_torus)
  have 2: "\<not> (ALIVE e ?c \<noteq> 0 \<and> NCOUNT e ?c \<noteq> 2 \<and> NCOUNT e ?c \<noteq> 3) \<and>
           \<not> (ALIVE e ?c = 0 \<and> NCOUNT e ?c = 3) \<longrightarrow> do_cell e n next cur i j n = next"
    using kill spawn by (auto simp: do_cell_cases)
  have 3: "3 \<le> n \<longrightarrow> distinct (torus_nbrs n i j) \<and> BOARD n i j \<notin> set (torus_nbrs n i j)"
    using distinct_torus_nbrs[of n i j] assms(2-5) by simp
  show ?thesis using 1 2 3 by simp
qed

theorem do_cell_transition_witness:
  "enc_ok nibble_enc \<and> (0::int) \<le> 1 \<and> (1::int) < 4 \<and>
   (6::nat) < length (replicate 16 (0::cell)) \<and>
   do_cell nibble_enc 4 (replicate 16 0) ((replicate 16 0)[5 := 3]) 1 1 4 ! 6 = 1 \<and>
   distinct (torus_nbrs 4 1 1)"
  using do_cell_transition [of nibble_enc 1 4 1 6 "replicate 16 0" "(replicate 16 0)[5 := 3]"]
    nibble_enc_ok
  by (simp add: BOARD_def torus_nbrs_def offsets_def nibble_enc_def)

section \<open>Frame of the per-cell transition\<close>

text \<open>
  C7: \<^verbatim>\<open>do_cell\<close> returns only a new next buffer (the current buffer is an argument
  it reads, and the model has no other output), of the same length, and every cell of the
  next buffer other than \<open>(i, j)\<close> and its eight toroidal neighbours is unchanged.
\<close>

theorem do_cell_frame:
  assumes "0 \<le> i" "i < n" "0 \<le> j" "j < n"
    and "k < length next" "k \<noteq> BOARD n i j" "k \<notin> set (torus_nbrs n i j)"
  shows "do_cell e n next cur i j n ! k = next ! k \<and>
         length (do_cell e n next cur i j n) = length next"
proof -
  have "count_list (nbrs n i j n) k = 0"
    using assms by (simp add: nbrs_torus)
  then show ?thesis
    using assms(5,6) by (simp add: do_cell_nth cell_effect_def Let_def)
qed

theorem do_cell_frame_witness:
  "(0::int) \<le> 1 \<and> (1::int) < 4 \<and> (3::nat) < length (replicate 16 (0::cell)) \<and>
   3 \<noteq> BOARD 4 1 1 \<and> 3 \<notin> set (torus_nbrs 4 1 1) \<and>
   do_cell nibble_enc 4 (replicate 16 0) ((replicate 16 0)[5 := 3]) 1 1 4 ! 3 =
     replicate 16 0 ! 3 \<and>
   length (do_cell nibble_enc 4 (replicate 16 0) ((replicate 16 0)[5 := 3]) 1 1 4) =
     length (replicate 16 (0::cell))"
  using do_cell_frame [of 1 4 1 3 "replicate 16 0" nibble_enc "(replicate 16 0)[5 := 3]"]
  by (simp add: BOARD_def torus_nbrs_def offsets_def)

section \<open>The margin path of the worker\<close>

text \<open>
  C9: the locked update the worker inlines for a margin cell (test \<open>ALIVE\<close> and
  \<open>TOKILL\<close> on the current cell and call \<^verbatim>\<open>kill_cell\<close>, else test \<open>TOSPAWN\<close> and
  call \<^verbatim>\<open>spawn_cell\<close>) yields the same next buffer as \<^verbatim>\<open>do_cell\<close> at the same
  position, for all buffers and positions.
\<close>

theorem margin_path_equals_do_cell:
  "margin_cell e lda outboard inboard i j nrows = do_cell e lda outboard inboard i j nrows"
  by (rule margin_cell_do_cell)

section \<open>Rows visited by one worker\<close>

text \<open>
  C10 (as stated): whenever the slice has fewer than four rows, the two margin ranges
  overlap and some row receives the transition twice. With 32 rows and 64 threads the
  slice of worker 0 is empty: the worker visits rows 0, 1, -2 and -1, no row twice (and
  none of them in its slice).
\<close>

theorem slice_rows_empty_counterexample:
  "(32::int) div 64 < 4 \<and> slice_rows 0 (0 + 32 div 64) = [0, 1, - 2, - 1] \<and>
   distinct (slice_rows 0 (0 + 32 div 64))"
  by (simp add: slice_rows_def upto_rec1)

text \<open>
  C10 (amended): for a slice of \<open>s \<ge> 1\<close> rows starting at \<open>start\<close>, the three row
  loops of the worker visit, per column, the rows \<open>slice_rows start (start + s)\<close>; each
  row of the slice is visited exactly once if and only if \<open>s \<ge> 4\<close>, and then the
  visited rows are exactly the rows of the slice in order; if \<open>s < 4\<close> some row of the
  slice is visited twice.
\<close>

theorem slice_rows_once_iff:
  assumes "0 < s"
  shows "worker_column e lda inb nrows start (start + s) j out =
           rows_loop (\<lambda>b i. do_cell e lda b inb i j nrows) nrows
             (slice_rows start (start + s)) out \<and>
         ((\<forall>r\<in>{start..start + s - 1}. count_list (slice_rows start (start + s)) r = 1) \<longleftrightarrow>
            4 \<le> s) \<and>
         (4 \<le> s \<longrightarrow> slice_rows start (start + s) = [start..start + s - 1]) \<and>
         (s < 4 \<longrightarrow> (\<exists>r\<in>{start..start + s - 1}. count_list (slice_rows start (start + s)) r = 2))"
proof -
  have wide: "count_list (slice_rows start (start + s)) r = 1"
    if "4 \<le> s" "r \<in> {start..start + s - 1}" for r
  proof -
    have "count (mset [start..start + s - 1]) r = 1"
      using that(2) distinct_upto[of start "start + s - 1"]
      by (simp add: distinct_count_atmost_1)
    then show ?thesis using that(1) by (simp add: slice_rows_wide count_mset)
  qed
  have narrow: "\<exists>r\<in>{start..start + s - 1}. count_list (slice_rows start (start + s)) r = 2"
    if "s < 4"
    using assms that by (rule slice_rows_narrow)
  have "(\<forall>r\<in>{start..start + s - 1}. count_list (slice_rows start (start + s)) r = 1) \<longleftrightarrow> 4 \<le> s"
  proof
    assume all: "\<forall>r\<in>{start..start + s - 1}. count_list (slice_rows start (start + s)) r = 1"
    show "4 \<le> s"
    proof (rule ccontr)
      assume "\<not> 4 \<le> s"
      then obtain r where "r \<in> {start..start + s - 1}"
          "count_list (slice_rows start (start + s)) r = 2"
        using narrow by auto
      with all show False by auto
    qed
  next
    assume "4 \<le> s"
    then show "\<forall>r\<in>{start..start + s - 1}. count_list (slice_rows start (start + s)) r = 1"
      using wide by blast
  qed
  then show ?thesis
    using narrow slice_rows_wide[of s start] by (simp add: worker_column_rows)
qed

theorem slice_rows_once_iff_witness:
  "(0::int) < 2 \<and>
   ((\<forall>r\<in>{4..4 + 2 - 1}. count_list (slice_rows 4 (4 + 2)) r = 1) \<longleftrightarrow> (4::int) \<le> 2) \<and>
   (\<exists>r\<in>{4..4 + 2 - 1}. count_list (slice_rows 4 (4 + 2)) r = 2)"
  using slice_rows_once_iff [of 2 nibble_enc 8 "replicate 64 0" 8 4 0 "replicate 64 0"]
  by simp

section \<open>The engine and the naive reference\<close>

lemma dvd_slices: "T dvd n \<Longrightarrow> T * (n div T) = n" for T n :: int
  by simp

text \<open>
  C1 (as stated): for every thread count that divides \<open>n\<close> the engine returns the board
  of the naive recomputation. With 32 rows and 16 threads every slice has two rows, both
  margin loops visit both rows, and every birth and death is counted twice in the
  neighbours. On the sample board the counts are wrong after one generation and the
  cell (5, 5), which stays alive under Conway's rule, is dead after two.
\<close>

theorem game_of_life_two_row_slices_counterexample:
  "(32::int) \<le> 32 \<and> (32::int) \<le> 10000 \<and> (16::int) dvd 32 \<and> plain_board 32 tromino32 \<and>
   game_of_life nibble_enc 16 (\<lambda>ob ib r c g. Inr (Some ib)) (replicate 1024 0) tromino32 32 32 2 \<noteq>
     Inr (Some (naive_life 32 (nat 2) tromino32))"
  using narrow_run_wrong [of "\<lambda>ob ib r c g. Inr (Some ib)"] plain_tromino32
  by simp

text \<open>
  C1 (amended): for every square plain 0/1 board of size \<open>n\<close> with \<open>32 \<le> n \<le> 10000\<close>,
  every thread count \<open>T\<close> that divides \<open>n\<close> and leaves slices of at least four rows
  (\<open>n div T \<ge> 4\<close>), and every \<open>gens_max\<close>, \<^verbatim>\<open>game_of_life\<close> returns the board the
  naive recomputation produces after \<open>gens_max\<close> generations (none for a negative
  \<open>gens_max\<close>). The output buffer holds \<open>n * n\<close> cells.
\<close>

theorem game_of_life_refines_naive:
  assumes "enc_ok e" "0 < T" "T dvd n" "4 \<le> n div T" "32 \<le> n" "n \<le> 10000"
    and "plain_board n inboard" "length outboard = nat (n * n)"
  shows "game_of_life e T seq outboard inboard n n gens_max =
         Inr (Some (naive_life n (nat gens_max) inboard))"
  using assms by (intro game_of_life_correct dvd_slices)

theorem game_of_life_refines_naive_witness:
  "enc_ok nibble_enc \<and> (0::int) < 4 \<and> (4::int) dvd 32 \<and> (4::int) \<le> 32 div 4 \<and>
   (32::int) \<le> 32 \<and> (32::int) \<le> 10000 \<and> plain_board 32 tromino32 \<and>
   length (replicate 1024 (0::cell)) = nat (32 * 32) \<and>
   game_of_life nibble_enc 4 (\<lambda>ob ib r c g. Inr (Some ib)) (replicate 1024 0) tromino32 32 32 2 =
     Inr (Some (naive_life 32 (nat 2) tromino32))"
  using game_of_life_refines_naive [of nibble_enc 4 32 tromino32 "replicate 1024 0"
      "\<lambda>ob ib r c g. Inr (Some ib)" 2]
    nibble_enc_ok plain_tromino32
  by simp

section \<open>Independence of the thread count\<close>

text \<open>
  C6 (as stated): two thread counts that both divide \<open>n\<close> give the same result. On
  the sample board one thread gives the naive result after two generations and 16
  threads (slices of two rows) do not.
\<close>

theorem thread_count_counterexample:
  "(1::int) dvd 32 \<and> (16::int) dvd 32 \<and>
   game_of_life nibble_enc 1 (\<lambda>ob ib r c g. Inr (Some ib)) (replicate 1024 0) tromino32 32 32 2 \<noteq>
   game_of_life nibble_enc 16 (\<lambda>ob ib r c g. Inr (Some ib)) (replicate 1024 0) tromino32 32 32 2"
  using narrow_run_wrong [of "\<lambda>ob ib r c g. Inr (Some ib)"]
    game_of_life_correct [of nibble_enc 1 32 tromino32 "replicate 1024 0"
      "\<lambda>ob ib r c g. Inr (Some ib)" 2]
    nibble_enc_ok plain_tromino32
  by simp

text \<open>
  C6 (amended): for a fixed plain board of size \<open>n\<close> (\<open>32 \<le> n \<le> 10000\<close>) and a fixed
  generation count, any two thread counts that divide \<open>n\<close> and leave slices of at least
  four rows give the same result. (Within one generation the order of the cell visits
  does not matter either: lemma \<open>sweep_order_irrelevant\<close>.)
\<close>

theorem thread_count_irrelevant:
  assumes "enc_ok e" "0 < T1" "T1 dvd n" "4 \<le> n div T1" "0 < T2" "T2 dvd n" "4 \<le> n div T2"
    and "32 \<le> n" "n \<le> 10000" "plain_board n inboard" "length outboard = nat (n * n)"
  shows "game_of_life e T1 seq outboard inboard n n gens_max =
         game_of_life e T2 seq outboard inboard n n gens_max"
proof -
  have "game_of_life e T1 seq outboard inboard n n gens_max =
        Inr (Some (naive_life n (nat gens_max) inboard))"
    using assms by (intro game_of_life_correct dvd_slices)
  moreover have "game_of_life e T2 seq outboard inboard n n gens_max =
        Inr (Some (naive_life n (nat gens_max) inboard))"
    using assms by (intro game_of_life_correct dvd_slices)
  ultimately show ?thesis by simp
qed

theorem thread_count_irrelevant_witness:
  "enc_ok nibble_enc \<and> (0::int) < 4 \<and> (4::int) dvd 32 \<and> (4::int) \<le> 32 div 4 \<and>
   (0::int) < 8 \<and> (8::int) dvd 32 \<and> (4::int) \<le> 32 div 8 \<and>
   (32::int) \<le> 32 \<and> (32::int) \<le> 10000 \<and> plain_board 32 tromino32 \<and>
   length (replicate 1024 (0::cell)) = nat (32 * 32) \<and>
   game_of_life nibble_enc 4 (\<lambda>ob ib r c g. Inr (Some ib)) (replicate 1024 0) tromino32 32 32 3 =
   game_of_life nibble_enc 8 (\<lambda>ob ib r c g. Inr (Some ib)) (replicate 1024 0) tromino32 32 32 3"
  using thread_count_irrelevant [of nibble_enc 4 32 8 tromino32 "replicate 1024 0"
      "\<lambda>ob ib r c g. Inr (Some ib)" 3]
    nibble_enc_ok plain_tromino32
  by simp

section \<open>The codec round trip\<close>

text \<open>
  C5: for every plain 0/1 square board of size \<open>n\<close>, \<^verbatim>\<open>postprocessing_board\<close> applied
  to either buffer \<^verbatim>\<open>preprocessing_board\<close> returns gives back the plain board. The
  output buffer holds \<open>n * n\<close> cells.
\<close>

theorem codec_round_trip:
  assumes "enc_ok e" "0 \<le> n" "plain_board n inboard" "length outboard = nat (n * n)"
  shows "postprocessing_board e (fst (preprocessing_board e n inboard outboard n)) n n = inboard \<and>
         postprocessing_board e (snd (preprocessing_board e n inboard outboard n)) n n = inboard"
proof (cases "n = 0")
  case True
  then show ?thesis
    using assms by (simp add: plain_board_def preprocessing_board_def postprocessing_board_def)
next
  case False
  then have n: "0 < n" using assms(2) by simp
  obtain b where b: "preprocessing_board e n inboard outboard n = (b, b)" "counts_ok e n b"
      "map (ALIVE e) b = inboard"
    using preprocessing_abs[OF assms(1) n assms(3,4)] by blast
  have "postprocessing_board e b n n = map (ALIVE e) b"
    using b(2) by (intro postprocessing_map) (simp add: counts_ok_def)
  then show ?thesis using b by simp
qed

theorem codec_round_trip_witness:
  "enc_ok nibble_enc \<and> (0::int) \<le> 32 \<and> plain_board 32 tromino32 \<and>
   length (replicate 1024 (0::cell)) = nat (32 * 32) \<and>
   postprocessing_board nibble_enc
     (snd (preprocessing_board nibble_enc 32 tromino32 (replicate 1024 0) 32)) 32 32 = tromino32"
  using codec_round_trip [of nibble_enc 32 tromino32 "replicate 1024 0"]
    nibble_enc_ok plain_tromino32
  by simp

section \<open>The all-dead board\<close>

text \<open>
  C8 (as stated): for every size the engine accepts, the all-dead board stays all-dead.
  With 32 rows and 32 threads the run leaves the board (row -1) before it returns.
\<close>

theorem all_dead_counterexample:
  "(32::int) \<le> 32 \<and> (32::int) \<le> 10000 \<and>
   game_of_life nibble_enc 32 (\<lambda>ob ib r c g. Inr (Some ib)) (replicate 1024 0) (replicate 1024 0)
     32 32 1 \<noteq> Inr (Some (replicate 1024 0))"
  using narrow_fault_run [of 32 32 1 nibble_enc "\<lambda>ob ib r c g. Inr (Some ib)" "replicate 1024 0"
      "replicate 1024 0"]
  by simp

text \<open>
  C8 (amended): for every square size \<open>n\<close> with \<open>32 \<le> n \<le> 10000\<close>, every thread count
  that leaves slices of at least two rows (\<open>n div T \<ge> 2\<close>) and every \<open>gens_max\<close>, the
  engine returns the all-dead board on the all-dead board.
\<close>

theorem all_dead_stays_dead:
  assumes "enc_ok e" "0 < T" "2 \<le> n div T" "32 \<le> n" "n \<le> 10000"
    and "length outboard = nat (n * n)"
  shows "game_of_life e T seq outboard (replicate (nat (n * n)) 0) n n gens_max =
         Inr (Some (replicate (nat (n * n)) 0))"
  using assms dead_board_run[of e T n outboard gens_max] by (simp add: game_of_life_def)

theorem all_dead_stays_dead_witness:
  "enc_ok nibble_enc \<and> (0::int) < 16 \<and> (2::int) \<le> 32 div 16 \<and> (32::int) \<le> 32 \<and>
   (32::int) \<le> 10000 \<and> length (replicate 1024 (0::cell)) = nat (32 * 32) \<and>
   game_of_life nibble_enc 16 (\<lambda>ob ib r c g. Inr (Some ib)) (replicate 1024 0)
     (replicate (nat (32 * 32)) 0) 32 32 5 = Inr (Some (replicate (nat (32 * 32)) 0))"
  using all_dead_stays_dead [of nibble_enc 16 32 "replicate 1024 0"
      "\<lambda>ob ib r c g. Inr (Some ib)" 5]
    nibble_enc_ok
  by simp

section \<open>The neighbour-count invariant\<close>

text \<open>
  C3 (as stated): the count field of every cell equals the number of its alive toroidal
  neighbours after encoding and after every completed generation. With 16 workers on 32
  rows (slices of two rows) the generation completes, and afterwards the count field of
  cell (5, 5) of the sample board is 4 while three of its neighbours are alive.
\<close>

theorem neighbour_count_counterexample:
  "(16::int) dvd 32 \<and> plain_board 32 tromino32 \<and> \<not> isl tromino_narrow_run \<and>
   NCOUNT nibble_enc (snd (projr tromino_narrow_run) ! BOARD 32 5 5) = 4 \<and>
   naive_count 32 (map (ALIVE nibble_enc) (snd (projr tromino_narrow_run))) 5 5 = 3"
  using narrow_counts_wrong plain_tromino32 by (simp add: BOARD_def)

text \<open>
  C3 (amended): for every plain 0/1 board of size \<open>n > 0\<close>, immediately after
  \<^verbatim>\<open>preprocessing_board\<close> the count field of every cell equals the number of alive
  toroidal neighbours of that cell in the plain board; and when the thread count divides
  \<open>n\<close> and leaves slices of at least four rows, every number \<open>g\<close> of generations
  completes with both buffers equal and the count field of every cell equal to the number
  of alive toroidal neighbours in the decoded board.
\<close>

theorem neighbour_count_invariant:
  assumes "enc_ok e" "0 < n" "plain_board n inboard" "length outboard = nat (n * n)"
  shows "(\<forall>k<nat (n * n).
            NCOUNT e (fst (preprocessing_board e n inboard outboard n) ! k) =
            naive_count n inboard (int k div n) (int k mod n)) \<and>
         (0 < T \<and> T dvd n \<and> 4 \<le> n div T \<longrightarrow>
            (\<exists>b. generations e T n n n g (preprocessing_board e n inboard outboard n) = Inr (b, b) \<and>
                 (\<forall>k<nat (n * n). NCOUNT e (b ! k) =
                    naive_count n (map (ALIVE e) b) (int k div n) (int k mod n))))"
proof -
  obtain b0 where b0: "preprocessing_board e n inboard outboard n = (b0, b0)" "counts_ok e n b0"
      "map (ALIVE e) b0 = inboard"
    using preprocessing_abs[OF assms] by blast
  have 1: "\<forall>k<nat (n * n). NCOUNT e (fst (preprocessing_board e n inboard outboard n) ! k) =
            naive_count n inboard (int k div n) (int k mod n)"
    using naive_count_is_invariant[OF assms(1,2) b0(2)] b0(1,3) by simp
  have 2: "\<exists>b. generations e T n n n g (preprocessing_board e n inboard outboard n) = Inr (b, b) \<and>
              (\<forall>k<nat (n * n). NCOUNT e (b ! k) =
                 naive_count n (map (ALIVE e) b) (int k div n) (int k mod n))"
    if T: "0 < T" "T dvd n" "4 \<le> n div T"
  proof -
    have Ts: "T * (n div T) = n" using T(2) by simp
    obtain b where b: "generations e T n n n g (b0, b0) = Inr (b, b)" "counts_ok e n b"
      using generations_good[OF assms(1) T(1) Ts T(3) b0(2)] by blast
    show ?thesis
      using naive_count_is_invariant[OF assms(1,2) b(2)] b(1) b0(1) by auto
  qed
  show ?thesis using 1 2 by blast
qed

theorem neighbour_count_invariant_witness:
  "enc_ok nibble_enc \<and> (0::int) < 32 \<and> plain_board 32 tromino32 \<and>
   length (replicate 1024 (0::cell)) = nat (32 * 32) \<and> (0::int) < 4 \<and> (4::int) dvd 32 \<and>
   (4::int) \<le> 32 div 4 \<and>
   NCOUNT nibble_enc (fst (preprocessing_board nibble_enc 32 tromino32 (replicate 1024 0) 32) ! 165) =
     naive_count 32 tromino32 5 5 \<and>
   \<not> isl (generations nibble_enc 4 32 32 32 3
            (preprocessing_board nibble_enc 32 tromino32 (replicate 1024 0) 32))"
proof -
  note t = neighbour_count_invariant [of nibble_enc 32 tromino32 "replicate 1024 0" 4 3,
      OF nibble_enc_ok _ plain_tromino32]
  have "NCOUNT nibble_enc (fst (preprocessing_board nibble_enc 32 tromino32 (replicate 1024 0) 32) ! 165) =
     naive_count 32 tromino32 (int 165 div 32) (int 165 mod 32)"
    using t by simp
  moreover have "\<exists>b. generations nibble_enc 4 32 32 32 3
            (preprocessing_board nibble_enc 32 tromino32 (replicate 1024 0) 32) = Inr (b, b)"
    using t by auto
  ultimately show ?thesis using nibble_enc_ok plain_tromino32 by auto
qed

end
